theory Spec2Isabelle
  imports Complex_Main "HOL-Library.Word" "HOL-Library.Multiset"
begin

section \<open>Data model\<close>

text \<open>
  The pixel engine of \<^verbatim>\<open>bg-remover-core.js\<close> (class \<^verbatim>\<open>BackgroundRemoverCore\<close>).
  Coordinates, indices and colour channels are integers (\<open>int\<close>, \<open>nat\<close>); the colour
  distance, the threshold and the feather width are reals.  The arithmetic on them is
  given twice.  \<open>calculateColorDistance\<close>, \<open>singlePassPixel\<close> and \<open>multiPassPixel\<close> compute
  with exact reals, \<^verbatim>\<open>Math.sqrt\<close> being the real square root.
  \<open>calculateColorDistanceDouble\<close> and \<open>singlePassPixelDouble\<close> are the same functions with
  every operation rounded to the nearest IEEE double, as the engine computes them; the
  alpha value that the single-pass scan stores is stated on these.  The bytes of a Jimp
  bitmap (\<^verbatim>\<open>image.bitmap.data\<close>, a Buffer) are 8-bit words; a store into the buffer is a
  conversion to 8 bits.
\<close>

type_synonym byte = "8 word"

text \<open>A colour object \<^verbatim>\<open>{r, g, b}\<close>.\<close>

datatype RGBColor = RGBColor (col_r: int) (col_g: int) (col_b: int)

text \<open>An entry \<^verbatim>\<open>{color, threshold}\<close> of \<^verbatim>\<open>colorPasses\<close>.\<close>

record ColorPass =
  pass_color :: RGBColor
  pass_threshold :: real

text \<open>\<^verbatim>\<open>image.bitmap\<close>: width, height and the RGBA bytes, four per pixel, row by row.\<close>

record Bitmap =
  bitmap_width :: nat
  bitmap_height :: nat
  bitmap_data :: "byte list"

text \<open>A bitmap as Jimp builds it holds exactly four bytes per pixel.\<close>

definition wf_bitmap :: "Bitmap \<Rightarrow> bool" where
  "wf_bitmap img \<longleftrightarrow> length (bitmap_data img) = 4 * (bitmap_width img * bitmap_height img)"

text \<open>
  The options object given to the constructor; an absent property is \<open>None\<close>.
\<close>

record Options =
  opt_mode :: "string option"
  opt_targetColor :: "RGBColor option"
  opt_threshold :: "real option"
  opt_feather :: "real option"
  opt_colorPasses :: "ColorPass list option"
  opt_textPadding :: "int option"
  opt_textDetectionMode :: "string option"
  opt_textColors :: "(int \<times> int \<times> int) list option"
  opt_textThreshold :: "real option"

text \<open>The fields of \<^verbatim>\<open>this\<close> that the constructor sets.\<close>

record Core =
  mode :: string
  targetColor :: "RGBColor option"
  threshold :: real
  feather :: real
  colorPasses :: "ColorPass list option"
  textPadding :: int
  textDetectionMode :: string
  textColors :: "(int \<times> int \<times> int) list"
  textThreshold :: real

text \<open>
  \<^verbatim>\<open>v || d\<close>: the default \<open>d\<close> replaces an absent value and every falsy one, which
  for a number is 0 and for a string the empty string; an object or an array (also the
  empty array) is truthy.
\<close>

definition or_real :: "real option \<Rightarrow> real \<Rightarrow> real" where
  "or_real v d = (case v of None \<Rightarrow> d | Some x \<Rightarrow> if x = 0 then d else x)"

definition or_int :: "int option \<Rightarrow> int \<Rightarrow> int" where
  "or_int v d = (case v of None \<Rightarrow> d | Some x \<Rightarrow> if x = 0 then d else x)"

definition or_string :: "string option \<Rightarrow> string \<Rightarrow> string" where
  "or_string v d = (case v of None \<Rightarrow> d | Some x \<Rightarrow> if x = [] then d else x)"

definition or_object :: "'a option \<Rightarrow> 'a \<Rightarrow> 'a" where
  "or_object v d = (case v of None \<Rightarrow> d | Some x \<Rightarrow> x)"

definition supportedFormats :: "string list" where
  "supportedFormats = [''.jpg'', ''.jpeg'', ''.png'', ''.webp'', ''.bmp'', ''.gif'']"

definition constructor :: "Options \<Rightarrow> Core" where
  "constructor options =
     \<lparr> mode = or_string (opt_mode options) ''ai'',
       targetColor = opt_targetColor options,
       threshold = or_real (opt_threshold options) 50,
       feather = or_real (opt_feather options) 0,
       colorPasses = opt_colorPasses options,
       textPadding = or_int (opt_textPadding options) 5,
       textDetectionMode = or_string (opt_textDetectionMode options) ''ocr'',
       textColors = or_object (opt_textColors options) [(255, 255, 255)],
       textThreshold = or_real (opt_textThreshold options) 40 \<rparr>"

section \<open>Colour distance\<close>

definition calculateColorDistance :: "RGBColor \<Rightarrow> RGBColor \<Rightarrow> real" where
  "calculateColorDistance color1 color2 =
     (let rDiff = col_r color1 - col_r color2;
          gDiff = col_g color1 - col_g color2;
          bDiff = col_b color1 - col_b color2
      in sqrt (real_of_int (rDiff * rDiff + gDiff * gDiff + bDiff * bDiff)))"

section \<open>Scanning a bitmap\<close>

text \<open>
  Jimp's \<^verbatim>\<open>image.scan(0, 0, width, height, f)\<close>: rows from top to bottom, each from
  left to right, the callback given \<open>x\<close>, \<open>y\<close> and the byte index
  \<^verbatim>\<open>(width * y + x) << 2\<close> of the pixel.  The callback changes the image's bytes (and
  the counter of the enclosing function), so it is a state transformer.
\<close>

definition scan :: "nat \<Rightarrow> nat \<Rightarrow> (nat \<Rightarrow> nat \<Rightarrow> nat \<Rightarrow> 's \<Rightarrow> 's) \<Rightarrow> 's \<Rightarrow> 's" where
  "scan w h f = fold (\<lambda>y. fold (\<lambda>x. f x y ((w * y + x) * 4)) [0..<w]) [0..<h]"

text \<open>The callback of the single-pass scan; the state is the buffer and \<^verbatim>\<open>pixelsChanged\<close>.\<close>

definition singlePassPixel ::
  "Core \<Rightarrow> RGBColor \<Rightarrow> nat \<Rightarrow> nat \<Rightarrow> nat \<Rightarrow> byte list \<times> nat \<Rightarrow> byte list \<times> nat" where
  "singlePassPixel this tc x y idx = (\<lambda>(d, pixelsChanged).
     let r = d ! (idx + 0); g = d ! (idx + 1); b = d ! (idx + 2); a = d ! (idx + 3);
         distance = calculateColorDistance (RGBColor (uint r) (uint g) (uint b)) tc
     in if distance \<le> threshold this then (d[idx + 3 := 0], pixelsChanged + 1)
        else if feather this > 0 \<and> distance \<le> threshold this + feather this then
          (let featherRatio = (distance - threshold this) / feather this
           in (d[idx + 3 := word_of_int \<lfloor>real_of_int (uint a) * featherRatio\<rfloor>], pixelsChanged))
        else (d, pixelsChanged))"

text \<open>The callback of one pass of the multi-pass loop.\<close>

definition multiPassPixel ::
  "ColorPass \<Rightarrow> nat \<Rightarrow> nat \<Rightarrow> nat \<Rightarrow> byte list \<times> nat \<Rightarrow> byte list \<times> nat" where
  "multiPassPixel pass x y idx = (\<lambda>(d, pixelsChanged).
     let r = d ! (idx + 0); g = d ! (idx + 1); b = d ! (idx + 2); a = d ! (idx + 3)
     in if a = 0 then (d, pixelsChanged)
        else
          (let distance = calculateColorDistance (RGBColor (uint r) (uint g) (uint b)) (pass_color pass)
           in if distance \<le> pass_threshold pass then (d[idx + 3 := 0], pixelsChanged + 1)
              else (d, pixelsChanged)))"

text \<open>
  The single-pass scan of \<^verbatim>\<open>removeBackgroundColor\<close>: the image after the scan and the
  number of pixels the scan counted as made transparent.
\<close>

definition singlePass :: "Core \<Rightarrow> RGBColor \<Rightarrow> Bitmap \<Rightarrow> Bitmap \<times> nat" where
  "singlePass this tc img =
     (let width = bitmap_width img; height = bitmap_height img;
          (d, pixelsChanged) = scan width height (singlePassPixel this tc) (bitmap_data img, 0)
      in (img\<lparr>bitmap_data := d\<rparr>, pixelsChanged))"

text \<open>
  The multi-pass loop: one scan per entry of \<^verbatim>\<open>colorPasses\<close>, in order, over the same
  image; \<^verbatim>\<open>pixelsChanged\<close> starts at 0 in each pass and is only logged.
\<close>

definition onePass :: "ColorPass \<Rightarrow> Bitmap \<Rightarrow> Bitmap" where
  "onePass pass img =
     img\<lparr>bitmap_data :=
       fst (scan (bitmap_width img) (bitmap_height img) (multiPassPixel pass) (bitmap_data img, 0))\<rparr>"

definition multiPass :: "ColorPass list \<Rightarrow> Bitmap \<Rightarrow> Bitmap" where
  "multiPass passes img = fold onePass passes img"

section \<open>Double-precision arithmetic\<close>

text \<open>
  A JavaScript number is an IEEE 754 double, and each of \<^verbatim>\<open>+\<close>, \<^verbatim>\<open>-\<close>, \<^verbatim>\<open>*\<close>, \<^verbatim>\<open>/\<close> and
  \<^verbatim>\<open>Math.sqrt\<close> returns the double nearest to the exact result, a tie going to the even
  significand.  \<open>roundHalfEven\<close> is that rounding to an integer; \<open>roundToDouble x\<close> is the
  double nearest to the real \<open>x\<close>: the nearest multiple of \<open>2 powr e\<close>, for the exponent
  \<open>e\<close> that puts \<open>\<bar>x\<bar> / 2 powr e\<close> from \<open>2 ^ 52\<close> up to \<open>2 ^ 53\<close>.  The exponent is not
  bounded: what a magnitude of \<open>2 ^ 1024\<close> or more, or one below \<open>2 powr - 1022\<close>, becomes
  (\<^verbatim>\<open>Infinity\<close>, a subnormal number) is not modelled, and neither is \<^verbatim>\<open>NaN\<close>.
\<close>

definition roundHalfEven :: "real \<Rightarrow> int" where
  "roundHalfEven y =
     (let n = \<lfloor>y\<rfloor>; r = y - real_of_int n
      in if r < 1 / 2 then n else if r > 1 / 2 then n + 1 else if even n then n else n + 1)"

definition roundToDouble :: "real \<Rightarrow> real" where
  "roundToDouble x =
     (if x = 0 then 0
      else let e = \<lfloor>log 2 \<bar>x\<bar>\<rfloor> - 52
           in real_of_int (roundHalfEven (x / 2 powr real_of_int e)) * 2 powr real_of_int e)"

text \<open>\<^verbatim>\<open>calculateColorDistance\<close>, each of its nine operations rounded.\<close>

definition calculateColorDistanceDouble :: "RGBColor \<Rightarrow> RGBColor \<Rightarrow> real" where
  "calculateColorDistanceDouble color1 color2 =
     (let rDiff = roundToDouble (real_of_int (col_r color1) - real_of_int (col_r color2));
          gDiff = roundToDouble (real_of_int (col_g color1) - real_of_int (col_g color2));
          bDiff = roundToDouble (real_of_int (col_b color1) - real_of_int (col_b color2))
      in roundToDouble (sqrt (roundToDouble (roundToDouble
           (roundToDouble (rDiff * rDiff) + roundToDouble (gDiff * gDiff))
            + roundToDouble (bDiff * bDiff)))))"

text \<open>
  The callback of the single-pass scan in doubles: the sum \<^verbatim>\<open>this.threshold + this.feather\<close>,
  the difference, the quotient \<^verbatim>\<open>featherRatio\<close> and the product \<^verbatim>\<open>a * featherRatio\<close> are
  rounded one by one; \<^verbatim>\<open>Math.floor\<close> of a double is exact.
\<close>

definition singlePassPixelDouble ::
  "Core \<Rightarrow> RGBColor \<Rightarrow> nat \<Rightarrow> nat \<Rightarrow> nat \<Rightarrow> byte list \<times> nat \<Rightarrow> byte list \<times> nat" where
  "singlePassPixelDouble this tc x y idx = (\<lambda>(d, pixelsChanged).
     let r = d ! (idx + 0); g = d ! (idx + 1); b = d ! (idx + 2); a = d ! (idx + 3);
         distance = calculateColorDistanceDouble (RGBColor (uint r) (uint g) (uint b)) tc
     in if distance \<le> threshold this then (d[idx + 3 := 0], pixelsChanged + 1)
        else if feather this > 0 \<and> distance \<le> roundToDouble (threshold this + feather this) then
          (let featherRatio = roundToDouble (roundToDouble (distance - threshold this) / feather this)
           in (d[idx + 3 := word_of_int \<lfloor>roundToDouble (real_of_int (uint a) * featherRatio)\<rfloor>],
               pixelsChanged))
        else (d, pixelsChanged))"

definition singlePassDouble :: "Core \<Rightarrow> RGBColor \<Rightarrow> Bitmap \<Rightarrow> Bitmap \<times> nat" where
  "singlePassDouble this tc img =
     (let width = bitmap_width img; height = bitmap_height img;
          (d, pixelsChanged) = scan width height (singlePassPixelDouble this tc) (bitmap_data img, 0)
      in (img\<lparr>bitmap_data := d\<rparr>, pixelsChanged))"

section \<open>Colour mode\<close>

text \<open>
  What \<^verbatim>\<open>removeBackgroundColor\<close> gets from outside: whether the input file exists, the
  extension of the input path in lower case, the image \<^verbatim>\<open>Jimp.read\<close> decodes (\<open>None\<close>
  when it throws) and whether the output can be written.
\<close>

record Env =
  fileExists :: bool
  inputExt :: string
  decoded :: "Bitmap option"
  writable :: bool

text \<open>
  Every \<^verbatim>\<open>throw\<close> inside the \<^verbatim>\<open>try\<close> block ends in the \<^verbatim>\<open>catch\<close>, which logs the
  message and returns \<^verbatim>\<open>false\<close>: the result \<open>Inl\<close> of the model.  \<open>Inr\<close> is the image
  written to the output path when the function returns \<^verbatim>\<open>true\<close>.
\<close>

datatype error =
  InputNotFound | UnsupportedFormat | TargetColorNotSpecified | ReadFailed | WriteFailed

definition removeBackgroundColor :: "Core \<Rightarrow> Env \<Rightarrow> error + Bitmap" where
  "removeBackgroundColor this env =
     (if \<not> fileExists env then Inl InputNotFound
      else if inputExt env \<notin> set supportedFormats then Inl UnsupportedFormat
      else if (case colorPasses this of None \<Rightarrow> False | Some ps \<Rightarrow> length ps > 0) then
        (case decoded env of
           None \<Rightarrow> Inl ReadFailed
         | Some img \<Rightarrow>
             (let img' = multiPass (the (colorPasses this)) img
              in if writable env then Inr img' else Inl WriteFailed))
      else
        (case targetColor this of
           None \<Rightarrow> Inl TargetColorNotSpecified
         | Some tc \<Rightarrow>
             (case decoded env of
                None \<Rightarrow> Inl ReadFailed
              | Some img \<Rightarrow>
                  (let (img', pixelsChanged) = singlePass this tc img
                   in if writable env then Inr img' else Inl WriteFailed))))"

section \<open>Connected components of a mask\<close>

text \<open>
  A region object.  \<^verbatim>\<open>findConnectedComponents\<close> builds \<^verbatim>\<open>{x, y, width, height, pixelCount}\<close>,
  \<^verbatim>\<open>detectTextRegions\<close> builds \<^verbatim>\<open>{x, y, width, height, text, confidence}\<close>; a property an
  object does not have is \<open>None\<close>.
\<close>

record Region =
  reg_x :: int
  reg_y :: int
  reg_width :: int
  reg_height :: int
  pixelCount :: "nat option"
  reg_text :: "string option"
  confidence :: "real option"

definition minRegionSize :: nat where
  "minRegionSize = 50"

definition directions :: "(int \<times> int) list" where
  "directions = [(-1, 0), (1, 0), (0, -1), (0, 1), (-1, -1), (-1, 1), (1, -1), (1, 1)]"

text \<open>
  \<^verbatim>\<open>mask[i]\<close> read as a condition: beyond the array the read is \<^verbatim>\<open>undefined\<close>, which is
  falsy.
\<close>

definition maskAt :: "bool list \<Rightarrow> int \<Rightarrow> bool" where
  "maskAt msk i \<longleftrightarrow> 0 \<le> i \<and> nat i < length msk \<and> msk ! nat i"

text \<open>
  The array \<^verbatim>\<open>visited\<close> is the function from an index to its entry: it starts all
  \<^verbatim>\<open>false\<close>, and an entry is only ever set to \<^verbatim>\<open>true\<close>.  The body of the loop over
  \<^verbatim>\<open>directions\<close> inside \<^verbatim>\<open>bfs\<close>, for the cell \<open>(x, y)\<close> taken from the queue:
\<close>

definition visitNeighbor ::
  "bool list \<Rightarrow> int \<Rightarrow> int \<Rightarrow> int \<Rightarrow> int \<Rightarrow> int \<times> int
    \<Rightarrow> (int \<Rightarrow> bool) \<times> (int \<times> int) list \<Rightarrow> (int \<Rightarrow> bool) \<times> (int \<times> int) list" where
  "visitNeighbor msk width height x y = (\<lambda>(dx, dy) (visited, queue).
     let nx = x + dx; ny = y + dy; nidx = ny * width + nx
     in if nx \<ge> 0 \<and> nx < width \<and> ny \<ge> 0 \<and> ny < height \<and> \<not> visited nidx \<and> maskAt msk nidx
        then (visited(nidx := True), queue @ [(nx, ny)])
        else (visited, queue))"

text \<open>The indices of the grid not yet marked: what the search can still push.\<close>

definition unvisited :: "int \<Rightarrow> int \<Rightarrow> (int \<Rightarrow> bool) \<Rightarrow> int set" where
  "unvisited width height visited = {i. 0 \<le> i \<and> i < width * height \<and> \<not> visited i}"

text \<open>
  The \<^verbatim>\<open>while (queue.length > 0)\<close> loop of \<^verbatim>\<open>bfs\<close>: \<^verbatim>\<open>queue.shift()\<close> takes the head,
  \<^verbatim>\<open>points.push\<close> appends it, the neighbours found are appended to the queue.
\<close>

function bfsLoop ::
  "bool list \<Rightarrow> int \<Rightarrow> int \<Rightarrow> (int \<Rightarrow> bool) \<Rightarrow> (int \<times> int) list \<Rightarrow> (int \<times> int) list
    \<Rightarrow> (int \<times> int) list \<times> (int \<Rightarrow> bool)" where
  "bfsLoop msk width height visited [] points = (points, visited)"
| "bfsLoop msk width height visited ((x, y) # queue) points =
     (let s = fold (visitNeighbor msk width height x y) directions (visited, queue)
      in bfsLoop msk width height (fst s) (snd s) (points @ [(x, y)]))"
  by pat_completeness auto
termination
proof (relation "measure (\<lambda>(msk, width, height, visited, queue, points).
    card (unvisited width height visited) + length queue)")
  show "wf (measure (\<lambda>(msk, width, height, visited, queue, points).
    card (unvisited width height visited) + length queue))" by simp
next
  fix msk :: "bool list" and width height :: int and visited :: "int \<Rightarrow> bool"
    and x y :: int and queue points :: "(int \<times> int) list" and s
  assume s: "s = fold (visitNeighbor msk width height x y) directions (visited, queue)"
  have fin: "finite (unvisited width height v)" for v
  proof -
    have "unvisited width height v \<subseteq> {0..<width * height}"
      by (auto simp: unvisited_def)
    then show ?thesis by (rule finite_subset) simp
  qed
  have inside: "0 \<le> ny * width + nx \<and> ny * width + nx < width * height"
    if "0 \<le> nx" "nx < width" "0 \<le> ny" "ny < height" for nx ny
  proof -
    have "ny + 1 \<le> height" using that by simp
    then have "(ny + 1) * width \<le> height * width"
      using that by (intro mult_right_mono) simp_all
    then show ?thesis using that by (simp add: algebra_simps)
  qed
  have one: "card (unvisited width height (fst (visitNeighbor msk width height x y dir (v, q))))
       + length (snd (visitNeighbor msk width height x y dir (v, q)))
     = card (unvisited width height v) + length q" for dir v q
  proof -
    obtain dx dy where dir: "dir = (dx, dy)" by (cases dir)
    define nx ny nidx where "nx = x + dx" and "ny = y + dy" and "nidx = ny * width + nx"
    show ?thesis
    proof (cases "nx \<ge> 0 \<and> nx < width \<and> ny \<ge> 0 \<and> ny < height \<and> \<not> v nidx \<and> maskAt msk nidx")
      case True
      then have "nidx \<in> unvisited width height v"
        using inside[of nx ny] by (simp add: unvisited_def nidx_def)
      moreover have "unvisited width height (v(nidx := True)) = unvisited width height v - {nidx}"
        by (auto simp: unvisited_def)
      ultimately have "card (unvisited width height (v(nidx := True))) + 1
          = card (unvisited width height v)"
        using card_Suc_Diff1[OF fin[of v], of nidx] by simp
      then show ?thesis using True
        by (simp add: visitNeighbor_def dir Let_def nx_def ny_def nidx_def)
    next
      case False
      then show ?thesis
        by (auto simp add: visitNeighbor_def dir Let_def nx_def ny_def nidx_def)
    qed
  qed
  have all: "card (unvisited width height (fst (fold (visitNeighbor msk width height x y) dirs st)))
       + length (snd (fold (visitNeighbor msk width height x y) dirs st))
     = card (unvisited width height (fst st)) + length (snd st)" for dirs st
  proof (induction dirs arbitrary: st)
    case Nil
    show ?case by simp
  next
    case (Cons dir dirs)
    obtain v q where st: "st = (v, q)" by (cases st)
    show ?case
      using Cons.IH[of "visitNeighbor msk width height x y dir st"] one[of dir v q]
      by (simp add: st)
  qed
  show "((msk, width, height, fst s, snd s, points @ [(x, y)]),
      (msk, width, height, visited, (x, y) # queue, points))
    \<in> measure (\<lambda>(msk, width, height, visited, queue, points).
        card (unvisited width height visited) + length queue)"
    using all[of directions "(visited, queue)"] s by simp
qed

definition bfs ::
  "bool list \<Rightarrow> int \<Rightarrow> int \<Rightarrow> (int \<Rightarrow> bool) \<Rightarrow> int \<Rightarrow> int \<Rightarrow> (int \<times> int) list \<times> (int \<Rightarrow> bool)" where
  "bfs msk width height visited startX startY =
     bfsLoop msk width height (visited(startY * width + startX := True)) [(startX, startY)] []"

text \<open>
  The body of the two loops of \<^verbatim>\<open>findConnectedComponents\<close> at the cell \<open>(x, y)\<close>;
  \<^verbatim>\<open>Math.min(...xs)\<close> and \<^verbatim>\<open>Math.max(...xs)\<close> of a non-empty array are \<open>Min\<close> and \<open>Max\<close>
  of its elements.
\<close>

definition componentStep ::
  "bool list \<Rightarrow> int \<Rightarrow> int \<Rightarrow> int \<Rightarrow> int \<Rightarrow> (int \<Rightarrow> bool) \<times> Region list
    \<Rightarrow> (int \<Rightarrow> bool) \<times> Region list" where
  "componentStep msk width height x y = (\<lambda>(visited, regions).
     let idx = y * width + x
     in if maskAt msk idx \<and> \<not> visited idx then
          (let (component, visited') = bfs msk width height visited x y
           in if length component \<ge> minRegionSize then
                (let xs = map fst component; ys = map snd component;
                     minX = Min (set xs); maxX = Max (set xs);
                     minY = Min (set ys); maxY = Max (set ys)
                 in (visited', regions @ [\<lparr> reg_x = minX, reg_y = minY,
                       reg_width = maxX - minX + 1, reg_height = maxY - minY + 1,
                       pixelCount = Some (length component), reg_text = None, confidence = None \<rparr>]))
              else (visited', regions))
        else (visited, regions))"

text \<open>
  \<^verbatim>\<open>findConnectedComponents(mask, width, height)\<close> for the dimensions of an image (natural
  numbers): the two arrays, then the loops over the rows and the columns.
\<close>

definition findConnectedComponents :: "bool list \<Rightarrow> nat \<Rightarrow> nat \<Rightarrow> Region list" where
  "findConnectedComponents msk width height =
     snd (fold (\<lambda>y. fold (\<lambda>x. componentStep msk (int width) (int height) x y) [0..int width - 1])
            [0..int height - 1] (\<lambda>i. False, []))"

section \<open>Text regions by colour\<close>

text \<open>
  Jimp's \<^verbatim>\<open>getPixelIndex(x, y)\<close> with its default edge handling (\<^verbatim>\<open>EDGE_EXTEND\<close>): a
  coordinate outside the image is moved to the nearest edge, and the index is -1 when
  no pixel is there even then (an image with no column or no row).
\<close>

definition clampCoord :: "int \<Rightarrow> int \<Rightarrow> int" where
  "clampCoord n v = (if v \<ge> n then n - 1 else if v < 0 then 0 else v)"

definition getPixelIndex :: "Bitmap \<Rightarrow> int \<Rightarrow> int \<Rightarrow> int" where
  "getPixelIndex img x y =
     (let w = int (bitmap_width img); h = int (bitmap_height img);
          xi = clampCoord w x; yi = clampCoord h y
      in if xi < 0 \<or> xi \<ge> w \<or> yi < 0 \<or> yi \<ge> h then - 1 else (w * yi + xi) * 4)"

text \<open>
  A read of a Buffer gives \<^verbatim>\<open>undefined\<close> outside it (\<open>None\<close>); a store outside it does
  nothing, and a store of \<^verbatim>\<open>undefined\<close> stores 0.
\<close>

definition bufferGet :: "byte list \<Rightarrow> int \<Rightarrow> byte option" where
  "bufferGet d i = (if 0 \<le> i \<and> nat i < length d then Some (d ! nat i) else None)"

definition bufferSet :: "byte list \<Rightarrow> int \<Rightarrow> byte option \<Rightarrow> byte list" where
  "bufferSet d i v =
     (if 0 \<le> i \<and> nat i < length d then d[nat i := (case v of None \<Rightarrow> 0 | Some b \<Rightarrow> b)] else d)"

text \<open>
  \<^verbatim>\<open>detectTextByColor\<close>: the mask cell of a pixel is set when the pixel is within
  \<^verbatim>\<open>textThreshold\<close> of one of the text colours, then the mask is labelled.
\<close>

definition markTextPixel :: "Core \<Rightarrow> Bitmap \<Rightarrow> int \<Rightarrow> int \<Rightarrow> bool list \<Rightarrow> bool list" where
  "markTextPixel this img x y textMask =
     (let idx = getPixelIndex img x y;
          r = bufferGet (bitmap_data img) (idx + 0);
          g = bufferGet (bitmap_data img) (idx + 1);
          b = bufferGet (bitmap_data img) (idx + 2)
      in case (r, g, b) of
           (Some r, Some g, Some b) \<Rightarrow>
             if list_ex (\<lambda>(tr, tg, tb).
                  calculateColorDistance (RGBColor (uint r) (uint g) (uint b)) (RGBColor tr tg tb)
                    \<le> textThreshold this) (textColors this)
             then textMask[nat (y * int (bitmap_width img) + x) := True]
             else textMask
         | _ \<Rightarrow> textMask)"

definition detectTextByColor :: "Core \<Rightarrow> Bitmap \<Rightarrow> Region list" where
  "detectTextByColor this img =
     (let width = bitmap_width img; height = bitmap_height img;
          textMask = fold (\<lambda>y. fold (\<lambda>x. markTextPixel this img x y) [0..int width - 1])
                       [0..int height - 1] (replicate (width * height) False)
      in findConnectedComponents textMask width height)"

section \<open>Text regions by OCR\<close>

text \<open>
  A word of the result of \<^verbatim>\<open>Tesseract.recognize\<close>, with its box \<open>(x0, y0, x1, y1)\<close> when it
  has one.
\<close>

record OcrWord =
  bbox :: "(int \<times> int \<times> int \<times> int) option"
  word_text :: string
  word_confidence :: real

definition wordRegion :: "OcrWord \<Rightarrow> Region list" where
  "wordRegion w =
     (case bbox w of
        None \<Rightarrow> []
      | Some (x0, y0, x1, y1) \<Rightarrow>
          [\<lparr> reg_x = x0, reg_y = y0, reg_width = x1 - x0, reg_height = y1 - y0,
             pixelCount = None, reg_text = Some (word_text w),
             confidence = Some (word_confidence w) \<rparr>])"

text \<open>
  What \<^verbatim>\<open>await Tesseract.recognize(imagePath, 'eng+jpn', options)\<close> does, \<^verbatim>\<open>options\<close> holding
  a \<^verbatim>\<open>logger\<close> at most:

    \<^item> \<open>Resolved ws\<close>: the promise resolves, \<open>ws\<close> being \<^verbatim>\<open>result.data.words\<close> (\<open>None\<close> when
      \<^verbatim>\<open>result.data\<close> or the word list is missing);

    \<^item> \<open>Rejected message\<close>: the promise is rejected and nothing else happens, so the
      \<^verbatim>\<open>await\<close> throws inside the \<^verbatim>\<open>try\<close>;

    \<^item> \<open>WorkerFailed message\<close>: the recognition fails in the worker of tesseract.js.  The
      library then rejects the promise and calls \<^verbatim>\<open>options.errorHandler\<close>; as
      \<^verbatim>\<open>detectTextRegions\<close> passes none, the library throws the error from its message
      handler instead.  That \<^verbatim>\<open>throw\<close> is outside the awaited call and outside every
      \<^verbatim>\<open>try\<close> of the engine: the exception is uncaught and ends the process before
      the \<^verbatim>\<open>catch\<close> clause runs.

  \<^verbatim>\<open>detectTextRegions\<close> returns a list of regions (\<open>Inr\<close>), or does not return, the process
  having ended with the uncaught error (\<open>Inl\<close>).
\<close>

datatype ocr_outcome =
  Resolved "OcrWord list option" | Rejected string | WorkerFailed string

datatype fatal = UncaughtException string

definition detectTextRegions :: "ocr_outcome \<Rightarrow> fatal + Region list" where
  "detectTextRegions recognized =
     (case recognized of
        WorkerFailed message \<Rightarrow> Inl (UncaughtException message)
      | Rejected message \<Rightarrow> Inr []
      | Resolved None \<Rightarrow> Inr []
      | Resolved (Some ws) \<Rightarrow> Inr (concat (map wordRegion ws)))"

section \<open>Hybrid mode\<close>

text \<open>The rows and columns of the loops that draw one region, padded and clipped.\<close>

definition paddedRows :: "int \<Rightarrow> int \<Rightarrow> Region \<Rightarrow> int list" where
  "paddedRows height padding region =
     [max 0 (reg_y region - padding) .. min height (reg_y region + reg_height region + padding) - 1]"

definition paddedCols :: "int \<Rightarrow> int \<Rightarrow> Region \<Rightarrow> int list" where
  "paddedCols width padding region =
     [max 0 (reg_x region - padding) .. min width (reg_x region + reg_width region + padding) - 1]"

text \<open>The body of the inner loop: the pixel of the original image copied, fully opaque.\<close>

definition copyPixel :: "Bitmap \<Rightarrow> int \<Rightarrow> int \<Rightarrow> Bitmap \<Rightarrow> Bitmap" where
  "copyPixel originalImage px py combinedMask =
     (let idx = getPixelIndex combinedMask px py;
          d0 = bitmap_data combinedMask;
          d1 = bufferSet d0 (idx + 0) (bufferGet (bitmap_data originalImage) (idx + 0));
          d2 = bufferSet d1 (idx + 1) (bufferGet (bitmap_data originalImage) (idx + 1));
          d3 = bufferSet d2 (idx + 2) (bufferGet (bitmap_data originalImage) (idx + 2));
          d4 = bufferSet d3 (idx + 3) (Some 255)
      in combinedMask\<lparr>bitmap_data := d4\<rparr>)"

definition drawRegion :: "int \<Rightarrow> Bitmap \<Rightarrow> Region \<Rightarrow> Bitmap \<Rightarrow> Bitmap" where
  "drawRegion padding originalImage region combinedMask =
     (let width = int (bitmap_width originalImage); height = int (bitmap_height originalImage)
      in fold (\<lambda>py. fold (\<lambda>px. copyPixel originalImage px py) (paddedCols width padding region))
           (paddedRows height padding region) combinedMask)"

text \<open>The loop over \<^verbatim>\<open>textRegions\<close> of \<^verbatim>\<open>removeBackgroundHybrid\<close>.\<close>

definition drawRegions :: "int \<Rightarrow> Bitmap \<Rightarrow> Region list \<Rightarrow> Bitmap \<Rightarrow> Bitmap" where
  "drawRegions padding originalImage textRegions combinedMask =
     fold (drawRegion padding originalImage) textRegions combinedMask"

text \<open>
  What \<^verbatim>\<open>removeBackgroundHybrid\<close> gets from outside: the file checks, the cutout of the
  AI model decoded (\<open>None\<close> when the model or the decoding throws), the original image decoded,
  the outcome of the OCR call, and whether the output can be written.
\<close>

record HybridEnv =
  h_fileExists :: bool
  h_inputExt :: string
  personMask :: "Bitmap option"
  original :: "Bitmap option"
  recognized :: ocr_outcome
  h_writable :: bool

text \<open>
  The first five errors are thrown inside the \<^verbatim>\<open>try\<close> of \<^verbatim>\<open>removeBackgroundHybrid\<close>, which
  logs them and returns \<^verbatim>\<open>false\<close>.  \<open>Uncaught\<close> is no return value: the process has ended
  with an exception that no \<^verbatim>\<open>try\<close> holds, and nothing has been written.
\<close>

datatype hybrid_error =
  HInputNotFound | HUnsupportedFormat | SegmentationFailed | HReadFailed | HWriteFailed
  | Uncaught fatal

definition removeBackgroundHybrid :: "Core \<Rightarrow> HybridEnv \<Rightarrow> hybrid_error + Bitmap" where
  "removeBackgroundHybrid this env =
     (if \<not> h_fileExists env then Inl HInputNotFound
      else if h_inputExt env \<notin> set supportedFormats then Inl HUnsupportedFormat
      else case personMask env of
        None \<Rightarrow> Inl SegmentationFailed
      | Some pm \<Rightarrow>
         (case original env of
            None \<Rightarrow> Inl HReadFailed
          | Some originalImage \<Rightarrow>
             (case (if textDetectionMode this = ''ocr'' then detectTextRegions (recognized env)
                    else if textDetectionMode this = ''color''
                      then Inr (detectTextByColor this originalImage)
                    else Inr []) of
                Inl uncaught \<Rightarrow> Inl (Uncaught uncaught)
              | Inr textRegions \<Rightarrow>
                 (let combinedMask = drawRegions (textPadding this) originalImage textRegions pm
                  in if h_writable env then Inr combinedMask else Inl HWriteFailed))))"

section \<open>Reading pixels\<close>

text \<open>The colour and the alpha byte of pixel number \<open>k\<close> (row by row) of a buffer.\<close>

definition pixelColor :: "byte list \<Rightarrow> nat \<Rightarrow> RGBColor" where
  "pixelColor d k = RGBColor (uint (d ! (4 * k))) (uint (d ! (4 * k + 1))) (uint (d ! (4 * k + 2)))"

definition pixelAlpha :: "byte list \<Rightarrow> nat \<Rightarrow> byte" where
  "pixelAlpha d k = d ! (4 * k + 3)"

text \<open>The alpha byte each callback leaves, as a function of the pixel's four bytes.\<close>

definition singleAlpha :: "Core \<Rightarrow> RGBColor \<Rightarrow> byte \<Rightarrow> byte \<Rightarrow> byte \<Rightarrow> byte \<Rightarrow> byte" where
  "singleAlpha this tc r g b a =
     (let distance = calculateColorDistance (RGBColor (uint r) (uint g) (uint b)) tc
      in if distance \<le> threshold this then 0
         else if feather this > 0 \<and> distance \<le> threshold this + feather this
           then word_of_int \<lfloor>real_of_int (uint a) * ((distance - threshold this) / feather this)\<rfloor>
           else a)"

definition multiAlpha :: "ColorPass \<Rightarrow> byte \<Rightarrow> byte \<Rightarrow> byte \<Rightarrow> byte \<Rightarrow> byte" where
  "multiAlpha pass r g b a =
     (if a = 0 then a
      else if calculateColorDistance (RGBColor (uint r) (uint g) (uint b)) (pass_color pass)
                \<le> pass_threshold pass then 0
      else a)"

definition singleAlphaDouble :: "Core \<Rightarrow> RGBColor \<Rightarrow> byte \<Rightarrow> byte \<Rightarrow> byte \<Rightarrow> byte \<Rightarrow> byte" where
  "singleAlphaDouble this tc r g b a =
     (let distance = calculateColorDistanceDouble (RGBColor (uint r) (uint g) (uint b)) tc
      in if distance \<le> threshold this then 0
         else if feather this > 0 \<and> distance \<le> roundToDouble (threshold this + feather this)
           then word_of_int \<lfloor>roundToDouble (real_of_int (uint a) *
                  roundToDouble (roundToDouble (distance - threshold this) / feather this))\<rfloor>
           else a)"

text \<open>The sum under the square root of \<^verbatim>\<open>calculateColorDistance\<close>.\<close>

definition squaredDistance :: "RGBColor \<Rightarrow> RGBColor \<Rightarrow> int" where
  "squaredDistance color1 color2 =
     (col_r color1 - col_r color2) * (col_r color1 - col_r color2)
     + (col_g color1 - col_g color2) * (col_g color1 - col_g color2)
     + (col_b color1 - col_b color2) * (col_b color1 - col_b color2)"

text \<open>
  The options \<^verbatim>\<open>main\<close> of \<^verbatim>\<open>bg-remover-cli.js\<close> passes to the constructor in colour
  mode, for a parsed target colour, a threshold and a feather width (the text options at
  the defaults of \<^verbatim>\<open>parseArgs\<close>).
\<close>

definition colorOptions :: "RGBColor \<Rightarrow> real \<Rightarrow> real \<Rightarrow> Options" where
  "colorOptions tc t f =
     \<lparr> opt_mode = Some ''color'', opt_targetColor = Some tc, opt_threshold = Some t,
       opt_feather = Some f, opt_colorPasses = None, opt_textPadding = Some 5,
       opt_textDetectionMode = Some ''color'', opt_textColors = Some [(255, 255, 255)],
       opt_textThreshold = Some 60 \<rparr>"

section \<open>Notions for the region labelling and the drawing of regions\<close>

definition gridCells :: "int \<Rightarrow> int \<Rightarrow> (int \<times> int) set" where
  "gridCells width height = {(x, y). 0 \<le> x \<and> x < width \<and> 0 \<le> y \<and> y < height}"

definition trueCells :: "bool list \<Rightarrow> int \<Rightarrow> int \<Rightarrow> (int \<times> int) set" where
  "trueCells msk width height = {(x, y). (x, y) \<in> gridCells width height \<and> maskAt msk (y * width + x)}"

definition adjacent8 :: "int \<times> int \<Rightarrow> int \<times> int \<Rightarrow> bool" where
  "adjacent8 p q \<longleftrightarrow> p \<noteq> q \<and> \<bar>fst q - fst p\<bar> \<le> 1 \<and> \<bar>snd q - snd p\<bar> \<le> 1"

definition touching :: "(int \<times> int) set \<Rightarrow> ((int \<times> int) \<times> (int \<times> int)) set" where
  "touching T = {(p, q). p \<in> T \<and> q \<in> T \<and> adjacent8 p q}"

definition component :: "(int \<times> int) set \<Rightarrow> int \<times> int \<Rightarrow> (int \<times> int) set" where
  "component T p = {q. (p, q) \<in> (touching T)\<^sup>*}"

definition components :: "(int \<times> int) set \<Rightarrow> (int \<times> int) set set" where
  "components T = component T ` T"

definition boundingRegion :: "(int \<times> int) set \<Rightarrow> Region" where
  "boundingRegion C =
     \<lparr> reg_x = Min (fst ` C), reg_y = Min (snd ` C),
       reg_width = Max (fst ` C) - Min (fst ` C) + 1,
       reg_height = Max (snd ` C) - Min (snd ` C) + 1,
       pixelCount = Some (card C), reg_text = None, confidence = None \<rparr>"

text \<open>The index \<^verbatim>\<open>y * width + x\<close> of a cell.\<close>

definition cellIndex :: "int \<Rightarrow> int \<times> int \<Rightarrow> int" where
  "cellIndex width c = snd c * width + fst c"

text \<open>
  The state of the search for the component \<open>C\<close>, started with the array \<open>V0\<close>: the
  queue holds distinct cells of \<open>C\<close>, none of them among the cells \<open>D\<close> already taken
  from it, and the cells marked since the start are those of \<open>D\<close> and of the queue.
\<close>

definition bfsInv ::
  "int \<Rightarrow> int \<Rightarrow> (int \<Rightarrow> bool) \<Rightarrow> (int \<times> int) set \<Rightarrow> (int \<times> int) set
    \<Rightarrow> (int \<Rightarrow> bool) \<Rightarrow> (int \<times> int) list \<Rightarrow> bool" where
  "bfsInv width height V0 C D V Q \<longleftrightarrow>
     set Q \<subseteq> C \<and> distinct Q \<and> set Q \<inter> D = {} \<and>
     (\<forall>c \<in> gridCells width height.
        V (cellIndex width c) \<longleftrightarrow> V0 (cellIndex width c) \<or> c \<in> D \<or> c \<in> set Q)"

text \<open>
  The state of the two loops of \<open>findConnectedComponents\<close> once the cells \<open>S\<close> are
  behind them: the components found so far, in order, are distinct components of the
  true cells; the marked cells are the cells of these components; every true cell of
  \<open>S\<close> is in one of them; and the regions are the boxes of those with at least 50 cells.
\<close>

definition labelInv ::
  "bool list \<Rightarrow> int \<Rightarrow> int \<Rightarrow> (int \<times> int) set \<Rightarrow> (int \<times> int) set list
    \<Rightarrow> (int \<Rightarrow> bool) \<times> Region list \<Rightarrow> bool" where
  "labelInv msk width height S Cs st \<longleftrightarrow>
     distinct Cs \<and> set Cs \<subseteq> components (trueCells msk width height) \<and>
     (\<forall>c \<in> gridCells width height. fst st (cellIndex width c) \<longleftrightarrow> c \<in> \<Union> (set Cs)) \<and>
     (\<forall>c \<in> S. c \<in> trueCells msk width height \<longrightarrow> c \<in> \<Union> (set Cs)) \<and>
     snd st = map boundingRegion (filter (\<lambda>C. minRegionSize \<le> card C) Cs)"

text \<open>The cells the two loops visit, in order.\<close>

definition scanCells :: "int \<Rightarrow> int \<Rightarrow> (int \<times> int) list" where
  "scanCells width height = concat (map (\<lambda>y. map (\<lambda>x. (x, y)) [0..width - 1]) [0..height - 1])"

text \<open>The four stores of \<open>copyPixel\<close> at the index \<open>i\<close>, on the bytes alone.\<close>

definition storePixel :: "byte list \<Rightarrow> int \<Rightarrow> byte list \<Rightarrow> byte list" where
  "storePixel o_data i d =
     bufferSet (bufferSet (bufferSet (bufferSet d (i + 0) (bufferGet o_data (i + 0)))
       (i + 1) (bufferGet o_data (i + 1))) (i + 2) (bufferGet o_data (i + 2))) (i + 3) (Some 255)"

definition storedByte :: "byte list \<Rightarrow> int \<Rightarrow> int \<Rightarrow> byte" where
  "storedByte o_data i j =
     (if j = i + 3 then 255 else case bufferGet o_data j of None \<Rightarrow> 0 | Some b \<Rightarrow> b)"

text \<open>The pixels that the loops of \<open>drawRegion\<close> visit, in order.\<close>

definition regionCells :: "int \<Rightarrow> int \<Rightarrow> int \<Rightarrow> Region \<Rightarrow> (int \<times> int) list" where
  "regionCells width height padding region =
     concat (map (\<lambda>py. map (\<lambda>px. (px, py)) (paddedCols width padding region))
       (paddedRows height padding region))"

section \<open>The effect of a scan\<close>

lemma cell_index_bounds:
  fixes nx ny width height :: int
  assumes "0 \<le> nx" "nx < width" "0 \<le> ny" "ny < height"
  shows "0 \<le> ny * width + nx" "ny * width + nx < width * height"
proof -
  show "0 \<le> ny * width + nx" using assms by simp
  have "ny + 1 \<le> height" using assms by simp
  then have "(ny + 1) * width \<le> height * width"
    using assms by (intro mult_right_mono) simp_all
  then show "ny * width + nx < width * height"
    using assms by (simp add: algebra_simps)
qed

lemma scan_row:
  "fold (\<lambda>x. f x y ((w * y + x) * 4)) [0..<w] = fold (\<lambda>k. f (k mod w) (k div w) (4 * k)) [w * y..<w * y + w]"
proof -
  have "[w * y..<w * y + w] = map (\<lambda>x. w * y + x) [0..<w]"
    by (simp add: map_add_upt add.commute)
  moreover have "fold (\<lambda>x. f x y ((w * y + x) * 4)) [0..<w] s
      = fold ((\<lambda>k. f (k mod w) (k div w) (4 * k)) \<circ> (\<lambda>x. w * y + x)) [0..<w] s" for s
    by (rule fold_cong) (auto simp: mult.commute)
  ultimately show ?thesis
    by (auto simp add: fold_map)
qed

lemma scan_linear: "scan w h f = fold (\<lambda>k. f (k mod w) (k div w) (4 * k)) [0..<w * h]"
proof (induction h)
  case 0
  show ?case by (simp add: scan_def)
next
  case (Suc h)
  have "[0..<w * h + w] = [0..<w * h] @ [w * h..<w * h + w]"
    by (rule upt_add_eq_append) simp
  then have "[0..<w * Suc h] = [0..<w * h] @ [w * h..<w * h + w]"
    by (simp only: mult_Suc_right add.commute)
  moreover have "scan w (Suc h) f = fold (\<lambda>x. f x h ((w * h + x) * 4)) [0..<w] \<circ> scan w h f"
    by (simp add: scan_def)
  ultimately show ?case
    by (simp only: Suc scan_row fold_append)
qed

lemma fold_alpha_local:
  assumes loc: "\<And>x y idx d c. fst (cb x y idx (d, c)) =
      d[idx + 3 := \<alpha> (d ! idx) (d ! (idx + 1)) (d ! (idx + 2)) (d ! (idx + 3))]"
    and len: "4 * n \<le> length d"
  shows "length (fst (fold (\<lambda>k. cb (k mod w) (k div w) (4 * k)) [0..<n] (d, c))) = length d \<and>
    (\<forall>j < length d. fst (fold (\<lambda>k. cb (k mod w) (k div w) (4 * k)) [0..<n] (d, c)) ! j =
       (if j mod 4 = 3 \<and> j div 4 < n
        then \<alpha> (d ! (j - 3)) (d ! (j - 2)) (d ! (j - 1)) (d ! j) else d ! j))"
  using len
proof (induction n)
  case 0
  show ?case by simp
next
  case (Suc n)
  let ?s = "fold (\<lambda>k. cb (k mod w) (k div w) (4 * k)) [0..<n] (d, c)"
  have IH: "length (fst ?s) = length d"
    "\<And>j. j < length d \<Longrightarrow> fst ?s ! j =
       (if j mod 4 = 3 \<and> j div 4 < n
        then \<alpha> (d ! (j - 3)) (d ! (j - 2)) (d ! (j - 1)) (d ! j) else d ! j)"
    using Suc by auto
  have step: "fst (fold (\<lambda>k. cb (k mod w) (k div w) (4 * k)) [0..<Suc n] (d, c)) =
      (fst ?s)[4 * n + 3 := \<alpha> (fst ?s ! (4 * n)) (fst ?s ! (4 * n + 1)) (fst ?s ! (4 * n + 2)) (fst ?s ! (4 * n + 3))]"
    using loc[of "n mod w" "n div w" "4 * n" "fst ?s" "snd ?s"] by simp
  have ar: "\<not> (4 * n) div 4 < n" "\<not> (4 * n + 1) div 4 < n" "\<not> (4 * n + 2) div 4 < n"
    "\<not> (4 * n + 3) div 4 < n" by presburger+
  have inr: "4 * n < length d" "4 * n + 1 < length d" "4 * n + 2 < length d" "4 * n + 3 < length d"
    using Suc.prems by simp_all
  have same: "fst ?s ! (4 * n) = d ! (4 * n)" "fst ?s ! (4 * n + 1) = d ! (4 * n + 1)"
    "fst ?s ! (4 * n + 2) = d ! (4 * n + 2)" "fst ?s ! (4 * n + 3) = d ! (4 * n + 3)"
    using IH(2)[OF inr(1)] IH(2)[OF inr(2)] IH(2)[OF inr(3)] IH(2)[OF inr(4)] ar
    by presburger+
  show ?case
  proof (intro conjI allI impI)
    show "length (fst (fold (\<lambda>k. cb (k mod w) (k div w) (4 * k)) [0..<Suc n] (d, c))) = length d"
      unfolding step by (simp add: IH(1))
  next
    fix j assume j: "j < length d"
    show "fst (fold (\<lambda>k. cb (k mod w) (k div w) (4 * k)) [0..<Suc n] (d, c)) ! j =
       (if j mod 4 = 3 \<and> j div 4 < Suc n
        then \<alpha> (d ! (j - 3)) (d ! (j - 2)) (d ! (j - 1)) (d ! j) else d ! j)"
    proof (cases "j = 4 * n + 3")
      case True
      have "(4 * n + 3) mod 4 = 3" "(4 * n + 3) div 4 < Suc n" by presburger+
      then show ?thesis unfolding step True same using inr(4)
        by (simp add: IH(1))
    next
      case False
      then have "\<not> (j mod 4 = 3 \<and> j div 4 = n)" by presburger
      then have "(j mod 4 = 3 \<and> j div 4 < Suc n) = (j mod 4 = 3 \<and> j div 4 < n)"
        by (auto simp: less_Suc_eq)
      then show ?thesis unfolding step using j False by (simp add: IH)
    qed
  qed
qed

lemma singlePassPixel_local:
  "fst (singlePassPixel this tc x y idx (d, c)) =
     d[idx + 3 := singleAlpha this tc (d ! idx) (d ! (idx + 1)) (d ! (idx + 2)) (d ! (idx + 3))]"
  by (simp add: singlePassPixel_def singleAlpha_def Let_def)

lemma multiPassPixel_local:
  "fst (multiPassPixel pass x y idx (d, c)) =
     d[idx + 3 := multiAlpha pass (d ! idx) (d ! (idx + 1)) (d ! (idx + 2)) (d ! (idx + 3))]"
  by (auto simp add: multiPassPixel_def multiAlpha_def Let_def) (metis list_update_id)

text \<open>The effect of a scan with an alpha-local callback on a well-formed buffer.\<close>

lemma scan_alpha_local:
  assumes loc: "\<And>x y idx d c. fst (cb x y idx (d, c)) =
      d[idx + 3 := \<alpha> (d ! idx) (d ! (idx + 1)) (d ! (idx + 2)) (d ! (idx + 3))]"
    and len: "length d = 4 * (w * h)"
  shows "length (fst (scan w h cb (d, c))) = length d"
    and "k < w * h \<Longrightarrow> pixelAlpha (fst (scan w h cb (d, c))) k =
        \<alpha> (d ! (4 * k)) (d ! (4 * k + 1)) (d ! (4 * k + 2)) (d ! (4 * k + 3))"
    and "k < w * h \<Longrightarrow> pixelColor (fst (scan w h cb (d, c))) k = pixelColor d k"
proof -
  have len': "4 * (w * h) \<le> length d" using len by simp
  note F = fold_alpha_local[of cb \<alpha> "w * h" d w c, OF loc len', unfolded scan_linear[symmetric]]
  show "length (fst (scan w h cb (d, c))) = length d" using F by simp
  assume k: "k < w * h"
  have m: "(4 * k + 3) mod 4 = 3" "(4 * k + 3) div 4 = k" "(4 * k) mod 4 \<noteq> 3"
    "(4 * k + 1) mod 4 \<noteq> 3" "(4 * k + 2) mod 4 \<noteq> 3" by presburger+
  have r: "4 * k < length d" "4 * k + 1 < length d" "4 * k + 2 < length d" "4 * k + 3 < length d"
    using k len by simp_all
  show "pixelAlpha (fst (scan w h cb (d, c))) k =
        \<alpha> (d ! (4 * k)) (d ! (4 * k + 1)) (d ! (4 * k + 2)) (d ! (4 * k + 3))"
    using F r(4) k m by (simp add: pixelAlpha_def)
  show "pixelColor (fst (scan w h cb (d, c))) k = pixelColor d k"
    using F r m by (simp add: pixelColor_def)
qed

lemma singlePass_data:
  "bitmap_data (fst (singlePass this tc img)) =
     fst (scan (bitmap_width img) (bitmap_height img) (singlePassPixel this tc) (bitmap_data img, 0))"
  by (simp add: singlePass_def Let_def split: prod.splits)

lemma singlePass_pixel:
  assumes "wf_bitmap img" "k < bitmap_width img * bitmap_height img"
  shows "pixelAlpha (bitmap_data (fst (singlePass this tc img))) k =
      singleAlpha this tc (bitmap_data img ! (4 * k)) (bitmap_data img ! (4 * k + 1))
        (bitmap_data img ! (4 * k + 2)) (bitmap_data img ! (4 * k + 3))"
    and "pixelColor (bitmap_data (fst (singlePass this tc img))) k = pixelColor (bitmap_data img) k"
  using assms scan_alpha_local[of "singlePassPixel this tc" "singleAlpha this tc", OF singlePassPixel_local]
  unfolding singlePass_data wf_bitmap_def by blast+




lemma calculateColorDistance_sq:
  "calculateColorDistance c1 c2 = sqrt (real_of_int (squaredDistance c1 c2))"
  by (simp add: calculateColorDistance_def squaredDistance_def Let_def)

lemma squaredDistance_nonneg: "0 \<le> squaredDistance c1 c2"
  by (simp add: squaredDistance_def)

lemma distance_le_iff:
  "0 \<le> t \<Longrightarrow> calculateColorDistance c1 c2 \<le> t \<longleftrightarrow> real_of_int (squaredDistance c1 c2) \<le> t\<^sup>2"
  unfolding calculateColorDistance_sq
  by (metis real_le_lsqrt sqrt_le_D)



lemma singleAlpha_pixel:
  assumes "wf_bitmap img" "k < bitmap_width img * bitmap_height img"
  shows "pixelAlpha (bitmap_data (fst (singlePass this tc img))) k =
      (let dist = calculateColorDistance (pixelColor (bitmap_data img) k) tc
       in if dist \<le> threshold this then 0
          else if feather this > 0 \<and> dist \<le> threshold this + feather this
            then word_of_int \<lfloor>real_of_int (uint (pixelAlpha (bitmap_data img) k)) * ((dist - threshold this) / feather this)\<rfloor>
            else pixelAlpha (bitmap_data img) k)"
  using singlePass_pixel(1)[OF assms, of this tc]
  by (simp add: singleAlpha_def pixelColor_def pixelAlpha_def Let_def)



lemma singlePass_alpha_zero:
  assumes "wf_bitmap img" and "k < bitmap_width img * bitmap_height img"
    and "calculateColorDistance (pixelColor (bitmap_data img) k) tc \<le> threshold this"
  shows "pixelAlpha (bitmap_data (fst (singlePass this tc img))) k = 0"
  unfolding singleAlpha_pixel[OF assms(1,2)] using assms(3) by (simp add: Let_def)

section \<open>Rounding to the nearest double\<close>

lemma roundHalfEven_bounds: "\<lfloor>y\<rfloor> \<le> roundHalfEven y \<and> roundHalfEven y \<le> \<lfloor>y\<rfloor> + 1"
  by (simp add: roundHalfEven_def Let_def)

lemma roundHalfEven_of_int: "roundHalfEven (real_of_int n) = n"
  by (simp add: roundHalfEven_def Let_def)

lemma roundHalfEven_error: "\<bar>real_of_int (roundHalfEven y) - y\<bar> \<le> 1 / 2"
proof -
  have "0 \<le> y - real_of_int \<lfloor>y\<rfloor>" "y - real_of_int \<lfloor>y\<rfloor> < 1" by linarith+
  then show ?thesis
    by (auto simp: roundHalfEven_def Let_def abs_le_iff)
qed

lemma roundHalfEven_mono:
  assumes "y \<le> z"
  shows "roundHalfEven y \<le> roundHalfEven z"
proof (cases "\<lfloor>y\<rfloor> = \<lfloor>z\<rfloor>")
  case False
  then have "\<lfloor>y\<rfloor> + 1 \<le> \<lfloor>z\<rfloor>" using floor_mono[OF assms] by linarith
  then show ?thesis
    using roundHalfEven_bounds[of y] roundHalfEven_bounds[of z] by linarith
next
  case True
  then have "y - real_of_int \<lfloor>y\<rfloor> \<le> z - real_of_int \<lfloor>z\<rfloor>" using assms by simp
  then show ?thesis
    using True by (auto simp: roundHalfEven_def Let_def)
qed

lemma binade:
  assumes "0 < x"
  shows "2 powr real_of_int \<lfloor>log 2 x\<rfloor> \<le> x" "x < 2 powr real_of_int (\<lfloor>log 2 x\<rfloor> + 1)"
  using floor_log_eq_powr_iff[of x 2 "\<lfloor>log 2 x\<rfloor>"] assms by simp_all

lemma scaled_binade:
  assumes "0 < x"
  defines "e \<equiv> \<lfloor>log 2 x\<rfloor> - 52"
  shows "2 ^ 52 \<le> x / 2 powr real_of_int e" "x / 2 powr real_of_int e < 2 ^ 53"
proof -
  have p: "2 powr real_of_int \<lfloor>log 2 x\<rfloor> = 2 powr real_of_int e * 2 ^ 52"
    "2 powr real_of_int (\<lfloor>log 2 x\<rfloor> + 1) = 2 powr real_of_int e * 2 ^ 53"
    by (simp_all add: e_def powr_diff powr_add powr_realpow[symmetric])
  have pos: "0 < 2 powr real_of_int e" by simp
  show "2 ^ 52 \<le> x / 2 powr real_of_int e"
    using binade(1)[OF assms(1)] pos unfolding p(1) by (simp add: pos_le_divide_eq mult.commute)
  show "x / 2 powr real_of_int e < 2 ^ 53"
    using binade(2)[OF assms(1)] pos unfolding p(2) by (simp add: pos_divide_less_eq mult.commute)
qed


lemma roundToDouble_pos:
  assumes "0 < x"
  shows "roundToDouble x =
     real_of_int (roundHalfEven (x / 2 powr real_of_int (\<lfloor>log 2 x\<rfloor> - 52)))
       * 2 powr real_of_int (\<lfloor>log 2 x\<rfloor> - 52)"
  using assms by (simp add: roundToDouble_def Let_def)

lemma roundToDouble_binade:
  assumes "0 < x"
  shows "2 powr real_of_int \<lfloor>log 2 x\<rfloor> \<le> roundToDouble x"
    and "roundToDouble x \<le> 2 powr real_of_int (\<lfloor>log 2 x\<rfloor> + 1)"
proof -
  define e where "e = \<lfloor>log 2 x\<rfloor> - 52"
  define m where "m = roundHalfEven (x / 2 powr real_of_int e)"
  have s: "real_of_int (2 ^ 52) \<le> x / 2 powr real_of_int e" "x / 2 powr real_of_int e \<le> real_of_int (2 ^ 53)"
    using scaled_binade[OF assms] by (simp_all add: e_def)
  have "2 ^ 52 \<le> m" "m \<le> 2 ^ 53"
    using roundHalfEven_mono[OF s(1)] roundHalfEven_mono[OF s(2)]
    unfolding roundHalfEven_of_int m_def by simp_all
  then have m: "2 ^ 52 \<le> real_of_int m" "real_of_int m \<le> 2 ^ 53"
    by (simp_all add: numeral_power_le_of_int_cancel_iff of_int_le_numeral_power_cancel_iff)
  have p: "2 powr real_of_int \<lfloor>log 2 x\<rfloor> = 2 ^ 52 * 2 powr real_of_int e"
    "2 powr real_of_int (\<lfloor>log 2 x\<rfloor> + 1) = 2 ^ 53 * 2 powr real_of_int e"
    by (simp_all add: e_def powr_diff powr_add powr_realpow[symmetric])
  have r: "roundToDouble x = real_of_int m * 2 powr real_of_int e"
    using roundToDouble_pos[OF assms] by (simp add: m_def e_def)
  show "2 powr real_of_int \<lfloor>log 2 x\<rfloor> \<le> roundToDouble x"
    unfolding p r using m(1) by (intro mult_right_mono) simp_all
  show "roundToDouble x \<le> 2 powr real_of_int (\<lfloor>log 2 x\<rfloor> + 1)"
    unfolding p r using m(2) by (intro mult_right_mono) simp_all
qed

lemma roundToDouble_zero: "roundToDouble 0 = 0"
  by (simp add: roundToDouble_def)

lemma roundToDouble_nonneg: "0 \<le> x \<Longrightarrow> 0 \<le> roundToDouble x"
proof (cases "x = 0")
  case True
  then show ?thesis by (simp add: roundToDouble_zero)
next
  case False
  assume "0 \<le> x"
  then have "0 < x" using False by simp
  then show ?thesis
    using roundToDouble_binade(1)[of x] powr_ge_zero[of 2 "real_of_int \<lfloor>log 2 x\<rfloor>"]
    by linarith
qed

lemma roundToDouble_mono:
  assumes "0 \<le> x" "x \<le> y"
  shows "roundToDouble x \<le> roundToDouble y"
proof (cases "x = 0")
  case True
  then show ?thesis using roundToDouble_nonneg[of y] assms by (simp add: roundToDouble_zero)
next
  case False
  then have x: "0 < x" and y: "0 < y" using assms by simp_all
  have le: "\<lfloor>log 2 x\<rfloor> \<le> \<lfloor>log 2 y\<rfloor>"
    using x y assms(2) by (intro floor_mono) simp
  show ?thesis
  proof (cases "\<lfloor>log 2 x\<rfloor> = \<lfloor>log 2 y\<rfloor>")
    case True
    define e where "e = \<lfloor>log 2 y\<rfloor> - 52"
    have "x / 2 powr real_of_int e \<le> y / 2 powr real_of_int e"
      using assms(2) by (simp add: divide_right_mono)
    then have "real_of_int (roundHalfEven (x / 2 powr real_of_int e))
        \<le> real_of_int (roundHalfEven (y / 2 powr real_of_int e))"
      using roundHalfEven_mono by simp
    then show ?thesis
      unfolding roundToDouble_pos[OF x] roundToDouble_pos[OF y] True e_def[symmetric]
      by (intro mult_right_mono) simp_all
  next
    case False
    then have "\<lfloor>log 2 x\<rfloor> + 1 \<le> \<lfloor>log 2 y\<rfloor>" using le by simp
    then have "2 powr real_of_int (\<lfloor>log 2 x\<rfloor> + 1) \<le> 2 powr real_of_int \<lfloor>log 2 y\<rfloor>"
      by (intro powr_mono) simp_all
    then show ?thesis
      using roundToDouble_binade(2)[OF x] roundToDouble_binade(1)[OF y] by linarith
  qed
qed

text \<open>Evaluation: the exponent is the one that brings the argument from \<open>2 ^ 52\<close> up to \<open>2 ^ 53\<close>.\<close>

lemma roundToDouble_scaled:
  assumes "0 < x" and "2 ^ 52 \<le> x / 2 powr real_of_int k" and "x / 2 powr real_of_int k < 2 ^ 53"
  shows "roundToDouble x = real_of_int (roundHalfEven (x / 2 powr real_of_int k)) * 2 powr real_of_int k"
proof -
  have pos: "0 < 2 powr real_of_int k" by simp
  have "2 powr real_of_int (k + 52) = 2 ^ 52 * 2 powr real_of_int k"
    "2 powr real_of_int (k + 52 + 1) = 2 ^ 53 * 2 powr real_of_int k"
    by (simp_all add: powr_add powr_realpow[symmetric])
  then have "2 powr real_of_int (k + 52) \<le> x" "x < 2 powr real_of_int (k + 52 + 1)"
    using assms(2,3) pos by (simp_all add: pos_le_divide_eq pos_divide_less_eq)
  then have "\<lfloor>log 2 x\<rfloor> = k + 52"
    using floor_log_eq_powr_iff[of x 2 "k + 52"] assms(1) by simp
  then show ?thesis using roundToDouble_pos[OF assms(1)] by simp
qed

lemma roundToDouble_of_int:
  assumes "0 \<le> n" "n < 2 ^ 53"
  shows "roundToDouble (real_of_int n) = real_of_int n"
proof (cases "n = 0")
  case True
  then show ?thesis by (simp add: roundToDouble_zero)
next
  case False
  then have n: "0 < real_of_int n" using assms(1) by simp
  define l where "l = \<lfloor>log 2 (real_of_int n)\<rfloor>"
  have "2 powr real_of_int l \<le> real_of_int n" using binade(1)[OF n] by (simp add: l_def)
  also have "real_of_int n < 2 ^ 53" using assms(2) by (simp add: of_int_less_numeral_power_cancel_iff)
  also have "(2::real) ^ 53 = 2 powr real_of_int 53" by (simp add: powr_realpow[symmetric])
  finally have "2 powr real_of_int l < (2::real) powr real_of_int 53" .
  then have "real_of_int l < real_of_int 53" by (simp only: powr_less_cancel_iff one_less_numeral_iff semiring_norm)
  then have l53: "l < 53" by (simp only: of_int_less_iff)
  define j where "j = nat (52 - l)"
  have j: "l - 52 = - int j" using l53 by (simp add: j_def)
  have sc: "real_of_int n / 2 powr real_of_int (l - 52) = real_of_int (n * 2 ^ j)"
    by (simp add: j powr_minus powr_realpow divide_inverse)
  have "roundToDouble (real_of_int n)
      = real_of_int (n * 2 ^ j) * 2 powr real_of_int (l - 52)"
    unfolding roundToDouble_pos[OF n] l_def[symmetric] sc roundHalfEven_of_int ..
  also have "\<dots> = real_of_int n"
    by (simp add: j powr_minus powr_realpow)
  finally show ?thesis .
qed

lemma roundToDouble_error:
  assumes "0 < x"
  shows "\<bar>roundToDouble x - x\<bar> \<le> x / 2 ^ 53"
proof -
  define e where "e = \<lfloor>log 2 x\<rfloor> - 52"
  define y where "y = x / 2 powr real_of_int e"
  have pos: "0 < 2 powr real_of_int e" by simp
  have x: "x = y * 2 powr real_of_int e" by (simp add: y_def)
  have y: "2 ^ 52 \<le> y" using scaled_binade(1)[OF assms] by (simp add: y_def e_def)
  have "roundToDouble x - x = (real_of_int (roundHalfEven y) - y) * 2 powr real_of_int e"
    using roundToDouble_pos[OF assms] by (simp add: e_def y_def algebra_simps)
  then have "\<bar>roundToDouble x - x\<bar> = \<bar>real_of_int (roundHalfEven y) - y\<bar> * 2 powr real_of_int e"
    by (simp add: abs_mult)
  also have "\<dots> \<le> (1 / 2) * 2 powr real_of_int e"
    using roundHalfEven_error[of y] by (intro mult_right_mono) simp_all
  also have "\<dots> \<le> (y / 2 ^ 53) * 2 powr real_of_int e"
    using y by (intro mult_right_mono) simp_all
  also have "\<dots> = x / 2 ^ 53" by (simp add: x)
  finally show ?thesis .
qed


lemma roundToDouble_fraction:
  assumes "0 < x" and "2 ^ 52 \<le> x * 2 ^ j" and "x * 2 ^ j < 2 ^ 53"
  shows "roundToDouble x = real_of_int (roundHalfEven (x * 2 ^ j)) / 2 ^ j"
proof -
  have p: "2 powr real_of_int (- int j) = 1 / 2 ^ j"
    by (simp add: powr_minus powr_realpow divide_inverse)
  show ?thesis
    using roundToDouble_scaled[of x "- int j"] assms unfolding p by simp
qed

lemma roundToDouble_seven_tenths: "roundToDouble (7 / 10) = 6305039478318694 / 2 ^ 53"
proof -
  have "roundHalfEven (7 / 10 * 2 ^ 53) = 6305039478318694"
    by (simp add: roundHalfEven_def Let_def)
  then show ?thesis
    using roundToDouble_fraction[of "7 / 10" 53] by simp
qed

lemma roundToDouble_ninety_times: "roundToDouble (90 * (6305039478318694 / 2 ^ 53)) = 8866461766385663 / 2 ^ 47"
proof -
  have "roundHalfEven (90 * (6305039478318694 / 2 ^ 53) * 2 ^ 47) = 8866461766385663"
    by (simp add: roundHalfEven_def Let_def)
  then show ?thesis
    using roundToDouble_fraction[of "90 * (6305039478318694 / 2 ^ 53)" 47] by simp
qed



lemma roundHalfEven_minus: "roundHalfEven (- y) = - roundHalfEven y"
proof (cases "y = real_of_int \<lfloor>y\<rfloor>")
  case True
  then obtain n where "y = real_of_int n" ..
  then show ?thesis
    using roundHalfEven_of_int[of n] roundHalfEven_of_int[of "- n"] by simp
next
  case False
  then have f: "\<lfloor>- y\<rfloor> = - \<lfloor>y\<rfloor> - 1"
    by (metis ceiling_altdef ceiling_def of_int_floor_cancel diff_minus_eq_add minus_diff_eq neg_equal_iff_equal add_diff_cancel uminus_add_conv_diff)
  show ?thesis
    unfolding roundHalfEven_def Let_def f by auto
qed

lemma roundToDouble_minus: "roundToDouble (- x) = - roundToDouble x"
  by (simp add: roundToDouble_def Let_def roundHalfEven_minus)

lemma roundToDouble_int:
  assumes "\<bar>n\<bar> < 2 ^ 53"
  shows "roundToDouble (real_of_int n) = real_of_int n"
proof (cases "0 \<le> n")
  case True
  then show ?thesis using roundToDouble_of_int[of n] assms by simp
next
  case False
  then have "roundToDouble (real_of_int (- n)) = real_of_int (- n)"
    using roundToDouble_of_int[of "- n"] assms by simp
  then show ?thesis by (simp add: roundToDouble_minus)
qed

lemma roundToDouble_error_nonneg:
  assumes "0 \<le> x"
  shows "\<bar>roundToDouble x - x\<bar> \<le> x / 2 ^ 53"
  using roundToDouble_error[of x] assms by (cases "x = 0") (simp_all add: roundToDouble_zero)

lemma roundToDouble_le_int:
  assumes "0 \<le> x" "x \<le> real_of_int m" "m < 2 ^ 53"
  shows "roundToDouble x \<le> real_of_int m"
proof -
  have "0 \<le> m" using assms(1,2) by linarith
  then show ?thesis
    using roundToDouble_mono[OF assms(1,2)] roundToDouble_of_int[of m] assms(3) by simp
qed


lemma sqrt_le_442:
  assumes "0 \<le> n" "n \<le> 195075"
  shows "sqrt (real_of_int n) \<le> 442"
proof -
  have "real_of_int n \<le> 442\<^sup>2" using assms(2) by simp
  then show ?thesis by (intro real_le_lsqrt) simp_all
qed

lemma roundToDouble_sqrt_le_int:
  assumes n: "0 \<le> n" "n \<le> 195075" and m: "0 \<le> m" "m < 2 ^ 53"
  shows "roundToDouble (sqrt (real_of_int n)) \<le> real_of_int m \<longleftrightarrow> sqrt (real_of_int n) \<le> real_of_int m"
proof
  assume "sqrt (real_of_int n) \<le> real_of_int m"
  then show "roundToDouble (sqrt (real_of_int n)) \<le> real_of_int m"
    using roundToDouble_le_int[of "sqrt (real_of_int n)" m] m(2) n(1) by simp
next
  assume le: "roundToDouble (sqrt (real_of_int n)) \<le> real_of_int m"
  show "sqrt (real_of_int n) \<le> real_of_int m"
  proof (rule ccontr)
    assume "\<not> sqrt (real_of_int n) \<le> real_of_int m"
    then have gt: "real_of_int m < sqrt (real_of_int n)" by simp
    define x where "x = sqrt (real_of_int n)"
    have x442: "x \<le> 442" using sqrt_le_442[OF n] by (simp add: x_def)
    have x0: "0 \<le> x" using n(1) by (simp add: x_def)
    have xx: "x * x = real_of_int n" using n(1) by (simp add: x_def)
    have m0: "0 \<le> real_of_int m" using m(1) by simp
    have "real_of_int m * real_of_int m < x * x"
      using gt m0 unfolding x_def[symmetric] by (intro mult_strict_mono') simp_all
    then have "real_of_int (m * m) < real_of_int n" unfolding xx by simp
    then have "m * m < n" by (simp only: of_int_less_iff)
    then have "m * m + 1 \<le> n" by simp
    then have "real_of_int (m * m + 1) \<le> real_of_int n" by (simp only: of_int_le_iff)
    then have "1 \<le> x * x - real_of_int m * real_of_int m" unfolding xx by simp
    also have "\<dots> = (x - real_of_int m) * (x + real_of_int m)" by (simp add: algebra_simps)
    also have "\<dots> \<le> (x - real_of_int m) * 884"
      using gt x442 unfolding x_def[symmetric] by (intro mult_left_mono) simp_all
    finally have gap: "1 / 884 \<le> x - real_of_int m" by simp
    have "\<bar>roundToDouble x - x\<bar> \<le> x / 2 ^ 53" using roundToDouble_error_nonneg[OF x0] .
    also have "\<dots> \<le> 442 / 2 ^ 53" using x442 by (simp add: divide_right_mono)
    finally have "\<bar>roundToDouble x - x\<bar> \<le> 442 / 2 ^ 53" .
    then have "x - 442 / 2 ^ 53 \<le> roundToDouble x" by linarith
    then have "real_of_int m < roundToDouble x" using gap by simp
    then show False using le by (simp add: x_def)
  qed
qed

text \<open>The feathered alpha in doubles: in the range of the byte, and within 1 of the exact value.\<close>

lemma feather_double:
  fixes a f :: int and t D :: real
  assumes a: "0 \<le> a" "a \<le> 255" and f: "0 < f" "f < 2 ^ 53"
    and D: "0 \<le> D" "D \<le> 442"
    and band: "t < roundToDouble D" "roundToDouble D - t \<le> real_of_int f"
  defines "p \<equiv> roundToDouble (real_of_int a * roundToDouble (roundToDouble (roundToDouble D - t) / real_of_int f))"
  shows "0 \<le> \<lfloor>p\<rfloor>" and "\<lfloor>p\<rfloor> \<le> a"
    and "\<bar>\<lfloor>p\<rfloor> - \<lfloor>real_of_int a * (D - t) / real_of_int f\<rfloor>\<bar> \<le> 1"
proof -
  define u :: real where "u = 1 / 2 ^ 53"
  define d where "d = roundToDouble D"
  define x1 where "x1 = d - t"
  define s where "s = roundToDouble x1"
  define x2 where "x2 = s / real_of_int f"
  define q where "q = roundToDouble x2"
  define x3 where "x3 = real_of_int a * q"
  have p: "p = roundToDouble x3" by (simp add: p_def x3_def q_def x2_def s_def x1_def d_def)
  have fr: "0 < real_of_int f" "1 \<le> real_of_int f" using f(1) by simp_all
  have ar: "0 \<le> real_of_int a" "real_of_int a \<le> 255" using a by simp_all
  have x1: "0 \<le> x1" "x1 \<le> real_of_int f" using band by (simp_all add: x1_def d_def)
  have s: "0 \<le> s" "s \<le> real_of_int f"
    using roundToDouble_nonneg[OF x1(1)] roundToDouble_le_int[OF x1 f(2)] by (simp_all add: s_def)
  have x2: "0 \<le> x2" "x2 \<le> 1" using s fr by (simp_all add: x2_def)
  have "roundToDouble x2 \<le> real_of_int 1"
    using x2 by (intro roundToDouble_le_int) simp_all
  then have q: "0 \<le> q" "q \<le> 1" using roundToDouble_nonneg[OF x2(1)] by (simp_all add: q_def)
  have x3: "0 \<le> x3" "x3 \<le> real_of_int a"
    using ar(1) q mult_left_mono[of q 1 "real_of_int a"] by (simp_all add: x3_def)
  have "a < 2 ^ 53" using a(2) by simp
  then have pa: "0 \<le> p" "p \<le> real_of_int a"
    using roundToDouble_nonneg[OF x3(1)] roundToDouble_le_int[OF x3] by (simp_all add: p)
  show "0 \<le> \<lfloor>p\<rfloor>" using pa(1) by simp
  show "\<lfloor>p\<rfloor> \<le> a" using pa(2) by (simp add: floor_le_iff)
  define e0 where "e0 = d - D"
  define e1 where "e1 = s - x1"
  define e2 where "e2 = q - x2"
  define e3 where "e3 = p - x3"
  have "\<bar>e0\<bar> \<le> D * u" using roundToDouble_error_nonneg[OF D(1)] by (simp add: e0_def d_def u_def)
  also have "\<dots> \<le> 442 * u" using D(2) by (simp add: u_def divide_right_mono)
  finally have e0: "\<bar>e0\<bar> \<le> 442 * u" .
  have "\<bar>e1\<bar> \<le> x1 * u" using roundToDouble_error_nonneg[OF x1(1)] by (simp add: e1_def s_def u_def)
  also have "\<dots> \<le> real_of_int f * u" using x1(2) by (simp add: u_def divide_right_mono)
  finally have e1: "\<bar>e1\<bar> \<le> real_of_int f * u" .
  have "\<bar>e2\<bar> \<le> x2 * u" using roundToDouble_error_nonneg[OF x2(1)] by (simp add: e2_def q_def u_def)
  also have "\<dots> \<le> 1 * u" using x2(2) by (simp add: u_def divide_right_mono)
  finally have e2: "\<bar>e2\<bar> \<le> u" by simp
  have "\<bar>e3\<bar> \<le> x3 * u" using roundToDouble_error_nonneg[OF x3(1)] by (simp add: e3_def p u_def)
  also have "\<dots> \<le> 255 * u" using x3(2) ar(2) by (simp add: u_def divide_right_mono)
  finally have e3: "\<bar>e3\<bar> \<le> 255 * u" .
  define E where "E = real_of_int a * (D - t) / real_of_int f"
  have dec: "p - E = real_of_int a * ((e0 + e1) / real_of_int f) + real_of_int a * e2 + e3"
    using fr(1) by (simp add: E_def e0_def e1_def e2_def e3_def x3_def x2_def x1_def field_simps)
  have "\<bar>e0 + e1\<bar> \<le> 442 * u + real_of_int f * u" using e0 e1 by linarith
  then have "\<bar>(e0 + e1) / real_of_int f\<bar> \<le> (442 * u + real_of_int f * u) / real_of_int f"
    using fr(1) by (simp add: abs_divide divide_right_mono del: abs_add_abs)
  also have "\<dots> = 442 * u / real_of_int f + u" using fr(1) by (simp add: field_simps)
  also have "\<dots> \<le> 442 * u + u"
  proof -
    have "0 \<le> 442 * u" by (simp add: u_def)
    then have "442 * u / real_of_int f \<le> 442 * u / 1"
      using fr(2) by (intro divide_left_mono) simp_all
    then show ?thesis by simp
  qed
  finally have e01: "\<bar>(e0 + e1) / real_of_int f\<bar> \<le> 443 * u" by simp
  have t1: "\<bar>real_of_int a * ((e0 + e1) / real_of_int f)\<bar> \<le> 255 * (443 * u)"
    unfolding abs_mult using ar e01 by (intro mult_mono) simp_all
  have t2: "\<bar>real_of_int a * e2\<bar> \<le> 255 * u"
    unfolding abs_mult using ar e2 by (intro mult_mono) simp_all
  have "\<bar>p - E\<bar> \<le> \<bar>real_of_int a * ((e0 + e1) / real_of_int f) + real_of_int a * e2\<bar> + \<bar>e3\<bar>"
    unfolding dec by (rule abs_triangle_ineq)
  also have "\<dots> \<le> (\<bar>real_of_int a * ((e0 + e1) / real_of_int f)\<bar> + \<bar>real_of_int a * e2\<bar>) + \<bar>e3\<bar>"
    by (intro add_right_mono abs_triangle_ineq)
  also have "\<dots> \<le> (255 * (443 * u) + 255 * u) + 255 * u"
    by (intro add_mono t1 t2 e3)
  also have "\<dots> < 1" by (simp add: u_def)
  finally have close: "\<bar>p - E\<bar> < 1" .
  have "p < E + 1" "E < p + 1" using close by linarith+
  then have pe: "p \<le> E + 1" "E \<le> p + 1" by simp_all
  have "\<lfloor>p\<rfloor> \<le> \<lfloor>E + 1\<rfloor>" "\<lfloor>E\<rfloor> \<le> \<lfloor>p + 1\<rfloor>"
    using floor_mono[OF pe(1)] floor_mono[OF pe(2)] by blast+
  then have "\<lfloor>p\<rfloor> \<le> \<lfloor>E\<rfloor> + 1" "\<lfloor>E\<rfloor> \<le> \<lfloor>p\<rfloor> + 1" by simp_all
  then show "\<bar>\<lfloor>p\<rfloor> - \<lfloor>real_of_int a * (D - t) / real_of_int f\<rfloor>\<bar> \<le> 1"
    by (simp add: E_def abs_le_iff)
qed

section \<open>Single-pass classification\<close>

text \<open>
  For a pixel of a bitmap and a target colour with channels from 0 to 255, the differences,
  the squares and their sum are integers below \<open>2 ^ 53\<close>: only the square root is rounded.
\<close>

lemma channel_square_double:
  fixes p q :: int
  assumes "p \<in> {0..255}" "q \<in> {0..255}"
  shows "0 \<le> (p - q) * (p - q)" "(p - q) * (p - q) \<le> 65025"
    and "roundToDouble (real_of_int p - real_of_int q) = real_of_int (p - q)"
    and "roundToDouble (real_of_int (p - q) * real_of_int (p - q)) = real_of_int ((p - q) * (p - q))"
proof -
  have ab: "\<bar>p - q\<bar> \<le> 255" using assms by auto
  show nn: "0 \<le> (p - q) * (p - q)" by simp
  have "\<bar>p - q\<bar> * \<bar>p - q\<bar> \<le> 255 * 255" using ab by (intro mult_mono) simp_all
  then show le: "(p - q) * (p - q) \<le> 65025" by (simp add: abs_mult_self_eq)
  have "\<bar>p - q\<bar> < 2 ^ 53" using ab by simp
  then show "roundToDouble (real_of_int p - real_of_int q) = real_of_int (p - q)"
    using roundToDouble_int[of "p - q"] by simp
  have "(p - q) * (p - q) < 2 ^ 53" using le by simp
  then show "roundToDouble (real_of_int (p - q) * real_of_int (p - q)) = real_of_int ((p - q) * (p - q))"
    using roundToDouble_of_int[OF nn] by simp
qed

lemma squaredDistance_le:
  assumes "col_r c1 \<in> {0..255}" "col_g c1 \<in> {0..255}" "col_b c1 \<in> {0..255}"
    and "col_r c2 \<in> {0..255}" "col_g c2 \<in> {0..255}" "col_b c2 \<in> {0..255}"
  shows "squaredDistance c1 c2 \<le> 195075"
  using channel_square_double(2)[OF assms(1,4)] channel_square_double(2)[OF assms(2,5)]
    channel_square_double(2)[OF assms(3,6)]
  by (simp add: squaredDistance_def)

lemma calculateColorDistanceDouble_exact_sum:
  assumes "col_r c1 \<in> {0..255}" "col_g c1 \<in> {0..255}" "col_b c1 \<in> {0..255}"
    and "col_r c2 \<in> {0..255}" "col_g c2 \<in> {0..255}" "col_b c2 \<in> {0..255}"
  shows "calculateColorDistanceDouble c1 c2 = roundToDouble (calculateColorDistance c1 c2)"
proof -
  define rr where "rr = (col_r c1 - col_r c2) * (col_r c1 - col_r c2)"
  define gg where "gg = (col_g c1 - col_g c2) * (col_g c1 - col_g c2)"
  define bb where "bb = (col_b c1 - col_b c2) * (col_b c1 - col_b c2)"
  note r = channel_square_double[OF assms(1,4), folded rr_def]
  note g = channel_square_double[OF assms(2,5), folded gg_def]
  note b = channel_square_double[OF assms(3,6), folded bb_def]
  have s1: "roundToDouble (real_of_int rr + real_of_int gg) = real_of_int (rr + gg)"
    using roundToDouble_of_int[of "rr + gg"] r(1,2) g(1,2) by simp
  have s2: "roundToDouble (real_of_int (rr + gg) + real_of_int bb) = real_of_int (rr + gg + bb)"
    using roundToDouble_of_int[of "rr + gg + bb"] r(1,2) g(1,2) b(1,2) by simp
  have "calculateColorDistanceDouble c1 c2 = roundToDouble (sqrt (real_of_int (rr + gg + bb)))"
    unfolding calculateColorDistanceDouble_def Let_def r(3) g(3) b(3) r(4) g(4) b(4) s1 s2 ..
  then show ?thesis
    by (simp add: calculateColorDistance_def Let_def rr_def gg_def bb_def)
qed

lemma pixelColor_range:
  "col_r (pixelColor d k) \<in> {0..255}" "col_g (pixelColor d k) \<in> {0..255}" "col_b (pixelColor d k) \<in> {0..255}"
  using uint_bounded[of "d ! (4 * k)"] uint_bounded[of "d ! (4 * k + 1)"] uint_bounded[of "d ! (4 * k + 2)"]
  by (simp_all add: pixelColor_def)

lemma singlePassPixelDouble_local:
  "fst (singlePassPixelDouble this tc x y idx (d, c)) =
     d[idx + 3 := singleAlphaDouble this tc (d ! idx) (d ! (idx + 1)) (d ! (idx + 2)) (d ! (idx + 3))]"
  by (simp add: singlePassPixelDouble_def singleAlphaDouble_def Let_def)

lemma singlePassDouble_data:
  "bitmap_data (fst (singlePassDouble this tc img)) =
     fst (scan (bitmap_width img) (bitmap_height img) (singlePassPixelDouble this tc) (bitmap_data img, 0))"
  by (simp add: singlePassDouble_def Let_def split: prod.splits)

lemma singlePassDouble_pixel:
  assumes "wf_bitmap img" "k < bitmap_width img * bitmap_height img"
  shows "pixelAlpha (bitmap_data (fst (singlePassDouble this tc img))) k =
      (let distance = calculateColorDistanceDouble (pixelColor (bitmap_data img) k) tc
       in if distance \<le> threshold this then 0
          else if feather this > 0 \<and> distance \<le> roundToDouble (threshold this + feather this)
            then word_of_int \<lfloor>roundToDouble (real_of_int (uint (pixelAlpha (bitmap_data img) k)) *
                   roundToDouble (roundToDouble (distance - threshold this) / feather this))\<rfloor>
            else pixelAlpha (bitmap_data img) k)"
proof -
  have "pixelAlpha (bitmap_data (fst (singlePassDouble this tc img))) k =
      singleAlphaDouble this tc (bitmap_data img ! (4 * k)) (bitmap_data img ! (4 * k + 1))
        (bitmap_data img ! (4 * k + 2)) (bitmap_data img ! (4 * k + 3))"
    using assms scan_alpha_local(2)[of "singlePassPixelDouble this tc" "singleAlphaDouble this tc", OF singlePassPixelDouble_local]
    unfolding singlePassDouble_data wf_bitmap_def by blast
  then show ?thesis
    by (simp add: singleAlphaDouble_def pixelColor_def pixelAlpha_def Let_def)
qed


lemma double_distance_cases:
  assumes tc: "col_r tc \<in> {0..255}" "col_g tc \<in> {0..255}" "col_b tc \<in> {0..255}"
    and m: "0 \<le> m" "m < 2 ^ 53"
  shows "calculateColorDistanceDouble (pixelColor d k) tc \<le> real_of_int m
      \<longleftrightarrow> calculateColorDistance (pixelColor d k) tc \<le> real_of_int m"
  unfolding calculateColorDistanceDouble_exact_sum[OF pixelColor_range tc] calculateColorDistance_sq
  using roundToDouble_sqrt_le_int[OF squaredDistance_nonneg squaredDistance_le[OF pixelColor_range tc] m] .

lemma singlePassDouble_uint_alpha:
  assumes wf: "wf_bitmap img" and k: "k < bitmap_width img * bitmap_height img"
    and t: "threshold this = real_of_int t" and f: "feather this = real_of_int f"
    and r: "0 \<le> t" "0 \<le> f" "t + f < 2 ^ 53"
    and tc: "col_r tc \<in> {0..255}" "col_g tc \<in> {0..255}" "col_b tc \<in> {0..255}"
  defines "distance \<equiv> calculateColorDistance (pixelColor (bitmap_data img) k) tc"
  defines "a \<equiv> uint (pixelAlpha (bitmap_data img) k)"
  defines "product \<equiv> roundToDouble (real_of_int a *
      roundToDouble (roundToDouble (roundToDouble distance - threshold this) / feather this))"
  shows "uint (pixelAlpha (bitmap_data (fst (singlePassDouble this tc img))) k) =
      (if distance \<le> threshold this then 0
       else if feather this > 0 \<and> distance \<le> threshold this + feather this then \<lfloor>product\<rfloor>
       else a)"
    and "threshold this < distance \<and> feather this > 0 \<and> distance \<le> threshold this + feather this \<longrightarrow>
       0 \<le> \<lfloor>product\<rfloor> \<and> \<lfloor>product\<rfloor> \<le> a
       \<and> \<bar>\<lfloor>product\<rfloor> - \<lfloor>real_of_int a * (distance - threshold this) / feather this\<rfloor>\<bar> \<le> 1"
proof -
  define dd where "dd = calculateColorDistanceDouble (pixelColor (bitmap_data img) k) tc"
  have dd: "dd = roundToDouble distance"
    unfolding dd_def distance_def by (rule calculateColorDistanceDouble_exact_sum[OF pixelColor_range tc])
  have t53: "t < 2 ^ 53" "0 \<le> t + f" using r by simp_all
  have c1: "dd \<le> threshold this \<longleftrightarrow> distance \<le> threshold this"
    unfolding dd_def distance_def t by (rule double_distance_cases[OF tc r(1) t53(1)])
  have sum: "roundToDouble (threshold this + feather this) = threshold this + feather this"
    using roundToDouble_of_int[OF t53(2) r(3)] by (simp add: t f)
  have "dd \<le> real_of_int (t + f) \<longleftrightarrow> distance \<le> real_of_int (t + f)"
    unfolding dd_def distance_def by (rule double_distance_cases[OF tc t53(2) r(3)])
  then have c2: "dd \<le> roundToDouble (threshold this + feather this) \<longleftrightarrow> distance \<le> threshold this + feather this"
    unfolding sum by (simp add: t f)
  have distance: "0 \<le> distance" "distance \<le> 442"
    using sqrt_le_442[OF squaredDistance_nonneg squaredDistance_le[OF pixelColor_range tc], of "bitmap_data img" k]
    by (simp_all add: distance_def calculateColorDistance_sq squaredDistance_nonneg)
  have a: "0 \<le> a" "a \<le> 255" using uint_bounded[of "pixelAlpha (bitmap_data img) k"] by (simp_all add: a_def)
  have band: "0 \<le> \<lfloor>product\<rfloor> \<and> \<lfloor>product\<rfloor> \<le> a
       \<and> \<bar>\<lfloor>product\<rfloor> - \<lfloor>real_of_int a * (distance - threshold this) / feather this\<rfloor>\<bar> \<le> 1"
    if b: "\<not> distance \<le> threshold this" "feather this > 0" "distance \<le> threshold this + feather this"
  proof -
    have f0: "0 < f" "f < 2 ^ 53" using b(2) r by (simp_all add: f)
    have b1: "real_of_int t < roundToDouble distance" using b(1) c1 by (simp add: dd t)
    have b2: "roundToDouble distance - real_of_int t \<le> real_of_int f"
      using b(3) c2 sum by (simp add: dd t f)
    show ?thesis
      using feather_double[OF a f0 distance b1 b2] by (simp add: product_def t f)
  qed
  show "threshold this < distance \<and> feather this > 0 \<and> distance \<le> threshold this + feather this \<longrightarrow>
       0 \<le> \<lfloor>product\<rfloor> \<and> \<lfloor>product\<rfloor> \<le> a
       \<and> \<bar>\<lfloor>product\<rfloor> - \<lfloor>real_of_int a * (distance - threshold this) / feather this\<rfloor>\<bar> \<le> 1"
    using band by simp
  have out: "pixelAlpha (bitmap_data (fst (singlePassDouble this tc img))) k =
      (if distance \<le> threshold this then 0
       else if feather this > 0 \<and> distance \<le> threshold this + feather this then word_of_int \<lfloor>product\<rfloor>
       else pixelAlpha (bitmap_data img) k)"
    unfolding singlePassDouble_pixel[OF wf k] Let_def dd_def[symmetric] c1 c2
    by (simp add: product_def a_def dd)
  show "uint (pixelAlpha (bitmap_data (fst (singlePassDouble this tc img))) k) =
      (if distance \<le> threshold this then 0
       else if feather this > 0 \<and> distance \<le> threshold this + feather this then \<lfloor>product\<rfloor>
       else a)"
  proof (cases "\<not> distance \<le> threshold this \<and> feather this > 0 \<and> distance \<le> threshold this + feather this")
    case True
    define v where "v = \<lfloor>product\<rfloor>"
    have "0 \<le> v" "v \<le> a" using True band by (simp_all add: v_def)
    then have "v mod 256 = v" using a by simp
    then have "uint (word_of_int v :: byte) = v"
      by (simp add: uint_word_of_int)
    then show ?thesis unfolding out using True by (simp add: v_def)
  next
    case False
    then show ?thesis unfolding out by (auto simp: a_def)
  qed
qed

lemma roundToDouble_numeral:
  "numeral n < (2::int) ^ 53 \<Longrightarrow> roundToDouble (numeral n) = numeral n"
  using roundToDouble_of_int[of "numeral n"] by simp

lemma feathered_17: "\<lfloor>roundToDouble (90 * roundToDouble (7 / 10))\<rfloor> = 62"
  unfolding roundToDouble_seven_tenths roundToDouble_ninety_times by simp

text \<open>
  Claim C3.  In the arithmetic of doubles, for a threshold and a feather width that are
  integers (what \<^verbatim>\<open>parseInt\<close> of the command line gives) and a target colour with
  channels from 0 to 255: for every pixel \<open>k\<close> of a well-formed image, the single-pass scan
  leaves alpha 0 when the distance of the pixel's colour to the target colour is at most
  the threshold; else, when the feather width is positive and the distance is at most
  threshold + feather, it leaves the floor of the product \<^verbatim>\<open>a * ((distance - threshold) / feather)\<close>
  as the engine computes it, from the rounded distance and with the difference, the
  quotient and the product rounded in turn; else it leaves the alpha byte as it was.
  The three cases are decided by the exact Euclidean distance.  The floor that is stored
  lies from 0 to the old alpha, so it fits the byte, and it is at most 1 away from
  \<open>floor (alpha * (distance - threshold) / feather)\<close>, the value in exact arithmetic, which
  it need not equal.  With feather width 0 the result is 0 or the old alpha, nothing in
  between.
\<close>

theorem single_pass_alpha_double:
  assumes "wf_bitmap img" and "k < bitmap_width img * bitmap_height img"
    and "threshold this = real_of_int t" and "feather this = real_of_int f"
    and "0 \<le> t" and "0 \<le> f" and "t + f < 2 ^ 53"
    and "col_r tc \<in> {0..255}" and "col_g tc \<in> {0..255}" and "col_b tc \<in> {0..255}"
  shows "(let d = bitmap_data img;
              out = bitmap_data (fst (singlePassDouble this tc img));
              dist = calculateColorDistance (pixelColor d k) tc;
              a = uint (pixelAlpha d k);
              product = roundToDouble (real_of_int a *
                roundToDouble (roundToDouble (roundToDouble dist - threshold this) / feather this))
          in uint (pixelAlpha out k) =
               (if dist \<le> threshold this then 0
                else if feather this > 0 \<and> dist \<le> threshold this + feather this then \<lfloor>product\<rfloor>
                else a)
             \<and> (threshold this < dist \<and> feather this > 0 \<and> dist \<le> threshold this + feather this \<longrightarrow>
                  0 \<le> \<lfloor>product\<rfloor> \<and> \<lfloor>product\<rfloor> \<le> a
                  \<and> \<bar>\<lfloor>product\<rfloor> - \<lfloor>real_of_int a * (dist - threshold this) / feather this\<rfloor>\<bar> \<le> 1)
             \<and> (feather this = 0 \<longrightarrow>
                  pixelAlpha out k = (if dist \<le> threshold this then 0 else pixelAlpha d k)))"
proof -
  note A = singlePassDouble_uint_alpha[OF assms]
  have "feather this = 0 \<longrightarrow>
      pixelAlpha (bitmap_data (fst (singlePassDouble this tc img))) k =
        (if calculateColorDistance (pixelColor (bitmap_data img) k) tc \<le> threshold this then 0
         else pixelAlpha (bitmap_data img) k)"
    using A(1) by (auto simp: word_uint_eq_iff)
  then show ?thesis using A unfolding Let_def by blast
qed

theorem single_pass_alpha_double_witness:
  "wf_bitmap \<lparr>bitmap_width = 2, bitmap_height = 1, bitmap_data = [0, 0, 0, 255, 17, 0, 0, 90]\<rparr>
   \<and> (1::nat) < 2 * 1
   \<and> threshold (constructor (colorOptions (RGBColor 0 0 0) 10 10)) = real_of_int 10
   \<and> feather (constructor (colorOptions (RGBColor 0 0 0) 10 10)) = real_of_int 10
   \<and> (10::int) + 10 < 2 ^ 53
   \<and> calculateColorDistance (pixelColor [0, 0, 0, 255, 17, 0, 0, 90] 1) (RGBColor 0 0 0) = 17
   \<and> uint (pixelAlpha (bitmap_data (fst (singlePassDouble (constructor (colorOptions (RGBColor 0 0 0) 10 10))
         (RGBColor 0 0 0)
         \<lparr>bitmap_width = 2, bitmap_height = 1, bitmap_data = [0, 0, 0, 255, 17, 0, 0, 90]\<rparr>))) 1) = 62"
  using single_pass_alpha_double[where img = "\<lparr>bitmap_width = 2, bitmap_height = 1, bitmap_data = [0, 0, 0, 255, 17, 0, 0, 90]\<rparr>"
      and k = 1 and this = "constructor (colorOptions (RGBColor 0 0 0) 10 10)" and t = 10 and f = 10
      and tc = "RGBColor 0 0 0"]
  by (simp add: wf_bitmap_def pixelColor_def pixelAlpha_def calculateColorDistance_def
      constructor_def colorOptions_def or_real_def Let_def roundToDouble_numeral feathered_17)

text \<open>
  One pixel of colour (17, 0, 0) and alpha 90, the target colour black, threshold 10,
  feather 10.  The distance is 17, inside the feather band, and
  \<open>floor (90 * (17 - 10) / 10) = 63\<close>.  The engine divides first: the double nearest to
  \<open>7 / 10\<close> is below it, the product with 90 rounds to the double just below 63, and
  the alpha stored is 62.
\<close>

theorem single_pass_alpha_counterexample:
  "(let img = \<lparr>bitmap_width = 1, bitmap_height = 1, bitmap_data = [17, 0, 0, 90]\<rparr>;
        this = constructor (colorOptions (RGBColor 0 0 0) 10 10);
        tc = RGBColor 0 0 0;
        dist = calculateColorDistance (pixelColor (bitmap_data img) 0) tc;
        a = uint (pixelAlpha (bitmap_data img) 0)
    in wf_bitmap img \<and> threshold this = 10 \<and> feather this = 10 \<and> a = 90 \<and> dist = 17
       \<and> \<lfloor>real_of_int a * (dist - threshold this) / feather this\<rfloor> = 63
       \<and> uint (pixelAlpha (bitmap_data (fst (singlePassDouble this tc img))) 0) = 62)"
proof -
  let ?img = "\<lparr>bitmap_width = 1, bitmap_height = 1, bitmap_data = [17, 0, 0, 90]\<rparr>"
  let ?core = "constructor (colorOptions (RGBColor 0 0 0) 10 10)"
  let ?tc = "RGBColor 0 0 0"
  have wf: "wf_bitmap ?img" by (simp add: wf_bitmap_def)
  have th: "threshold ?core = 10" "feather ?core = 10"
    by (simp_all add: constructor_def colorOptions_def or_real_def)
  have dist: "calculateColorDistance (pixelColor [17, 0, 0, 90] 0) ?tc = 17"
    by (simp add: pixelColor_def calculateColorDistance_def Let_def)
  have dd: "calculateColorDistanceDouble (pixelColor [17, 0, 0, 90] 0) ?tc = 17"
    using calculateColorDistanceDouble_exact_sum[OF pixelColor_range, of ?tc "[17, 0, 0, 90]" 0]
    by (simp add: dist roundToDouble_numeral)
  have a: "pixelAlpha [17, 0, 0, 90] 0 = 90" by (simp add: pixelAlpha_def)
  have "pixelAlpha (bitmap_data (fst (singlePassDouble ?core ?tc ?img))) 0
      = word_of_int \<lfloor>roundToDouble (90 * roundToDouble (7 / 10))\<rfloor>"
    using singlePassDouble_pixel[OF wf, of 0 ?core ?tc]
    by (simp add: Let_def dd th a roundToDouble_numeral)
  then have "uint (pixelAlpha (bitmap_data (fst (singlePassDouble ?core ?tc ?img))) 0) = 62"
    unfolding feathered_17 by simp
  then show ?thesis
    using wf th dist a by (simp add: Let_def)
qed


section \<open>Feathering\<close>





section \<open>Thresholds 0 and 441\<close>




text \<open>
  The constructor reads the threshold with \<^verbatim>\<open>options.threshold || 50\<close>, so the option
  value 0 gives the threshold 50; and from threshold 442 on every pixel is removed when
  the channels of the target colour are bytes.
\<close>

lemma constructor_threshold_zero:
  "threshold (constructor (options\<lparr>opt_threshold := Some 0\<rparr>)) = 50"
  by (simp add: constructor_def or_real_def)

lemma channel_square_bound:
  fixes b :: byte and c :: int
  assumes "0 \<le> c" "c \<le> 255"
  shows "(uint b - c) * (uint b - c) \<le> 65025"
proof -
  define n where "n = uint b"
  have "0 \<le> n" "n \<le> 255" using uint_bounded[of b] by (simp_all add: n_def)
  then have "\<bar>n - c\<bar> \<le> \<bar>255 :: int\<bar>" using assms by linarith
  then have "\<bar>uint b - c\<bar> \<le> \<bar>255 :: int\<bar>" by (simp only: n_def)
  then have "(uint b - c)\<^sup>2 \<le> (255 :: int)\<^sup>2" by (simp only: abs_le_square_iff)
  then show ?thesis by (simp add: power2_eq_square)
qed

lemma threshold_442_removes_all:
  assumes "wf_bitmap img" and "k < bitmap_width img * bitmap_height img"
    and "0 \<le> col_r tc" "col_r tc \<le> 255" "0 \<le> col_g tc" "col_g tc \<le> 255"
    and "0 \<le> col_b tc" "col_b tc \<le> 255"
    and "442 \<le> threshold this"
  shows "pixelAlpha (bitmap_data (fst (singlePass this tc img))) k = 0"
proof -
  have "squaredDistance (pixelColor (bitmap_data img) k) tc \<le> 65025 + 65025 + 65025"
    unfolding squaredDistance_def pixelColor_def RGBColor.sel
    using channel_square_bound[OF assms(3,4)] channel_square_bound[OF assms(5,6)]
      channel_square_bound[OF assms(7,8)]
    by (intro add_mono) simp_all
  then have "real_of_int (squaredDistance (pixelColor (bitmap_data img) k) tc) \<le> 442\<^sup>2"
    by (simp add: power2_eq_square)
  then have "calculateColorDistance (pixelColor (bitmap_data img) k) tc \<le> 442"
    using distance_le_iff[of 442 "pixelColor (bitmap_data img) k" tc] by simp
  then show ?thesis
    using singlePass_alpha_zero[OF assms(1,2), of tc this] assms(9) by simp
qed

section \<open>Multi-pass classification\<close>

lemma onePass_geometry:
  "bitmap_width (onePass pass img) = bitmap_width img"
  "bitmap_height (onePass pass img) = bitmap_height img"
  by (simp_all add: onePass_def)

lemma onePass_wf: "wf_bitmap img \<Longrightarrow> wf_bitmap (onePass pass img)"
  using scan_alpha_local(1)[of "multiPassPixel pass" "multiAlpha pass", OF multiPassPixel_local]
  by (simp add: wf_bitmap_def onePass_def)

lemma onePass_pixel:
  assumes "wf_bitmap img" "k < bitmap_width img * bitmap_height img"
  shows "pixelAlpha (bitmap_data (onePass pass img)) k =
      multiAlpha pass (bitmap_data img ! (4 * k)) (bitmap_data img ! (4 * k + 1))
        (bitmap_data img ! (4 * k + 2)) (bitmap_data img ! (4 * k + 3))"
    and "pixelColor (bitmap_data (onePass pass img)) k = pixelColor (bitmap_data img) k"
  using assms scan_alpha_local[of "multiPassPixel pass" "multiAlpha pass", OF multiPassPixel_local]
  unfolding onePass_def wf_bitmap_def by simp_all

lemma multiPass_geometry:
  "bitmap_width (multiPass passes img) = bitmap_width img \<and>
   bitmap_height (multiPass passes img) = bitmap_height img"
  by (induction passes arbitrary: img) (simp_all add: multiPass_def onePass_geometry)

lemma multiPass_wf: "wf_bitmap img \<Longrightarrow> wf_bitmap (multiPass passes img)"
  by (induction passes arbitrary: img) (simp_all add: multiPass_def onePass_wf)

lemma multiPass_append: "multiPass (ps1 @ ps2) img = multiPass ps2 (multiPass ps1 img)"
  by (simp add: multiPass_def)

lemma multiPass_transparent_untouched:
  assumes "wf_bitmap img" "k < bitmap_width img * bitmap_height img"
    and "pixelAlpha (bitmap_data img) k = 0"
  shows "pixelAlpha (bitmap_data (multiPass passes img)) k = 0 \<and>
         pixelColor (bitmap_data (multiPass passes img)) k = pixelColor (bitmap_data img) k"
  using assms
proof (induction passes arbitrary: img)
  case Nil
  then show ?case by (simp add: multiPass_def)
next
  case (Cons p ps)
  have a: "pixelAlpha (bitmap_data (onePass p img)) k = 0"
    using onePass_pixel(1)[OF Cons.prems(1,2), of p] Cons.prems(3)
    by (simp add: multiAlpha_def pixelAlpha_def)
  have c: "pixelColor (bitmap_data (onePass p img)) k = pixelColor (bitmap_data img) k"
    by (rule onePass_pixel(2)[OF Cons.prems(1,2)])
  have "multiPass (p # ps) img = multiPass ps (onePass p img)"
    by (simp add: multiPass_def)
  then show ?case
    using Cons.IH[of "onePass p img"] onePass_wf[OF Cons.prems(1), of p] Cons.prems(2) a c
    by (simp add: onePass_geometry)
qed

text \<open>
  Claim C4.  In the multi-pass loop over a well-formed image, a pixel whose alpha is 0
  before the passes has alpha 0 and its colour bytes unchanged after them, whatever the
  list of passes; hence a pixel whose alpha is 0 after the passes \<open>passes1\<close> still has
  alpha 0 after any further passes \<open>passes2\<close>.
\<close>

theorem multi_pass_transparent_stays:
  assumes "wf_bitmap img" and "k < bitmap_width img * bitmap_height img"
  shows "(pixelAlpha (bitmap_data img) k = 0 \<longrightarrow>
            pixelAlpha (bitmap_data (multiPass passes img)) k = 0 \<and>
            pixelColor (bitmap_data (multiPass passes img)) k = pixelColor (bitmap_data img) k)
       \<and> (pixelAlpha (bitmap_data (multiPass passes1 img)) k = 0 \<longrightarrow>
            pixelAlpha (bitmap_data (multiPass (passes1 @ passes2) img)) k = 0)"
proof -
  have "pixelAlpha (bitmap_data (multiPass passes2 (multiPass passes1 img))) k = 0"
    if "pixelAlpha (bitmap_data (multiPass passes1 img)) k = 0"
    using multiPass_transparent_untouched[of "multiPass passes1 img" k passes2]
      multiPass_wf[OF assms(1), of passes1] multiPass_geometry[of passes1 img] assms(2) that
    by simp
  then show ?thesis
    using multiPass_transparent_untouched[OF assms, of passes]
    by (simp add: multiPass_append)
qed

theorem multi_pass_transparent_stays_witness:
  "wf_bitmap \<lparr>bitmap_width = 2, bitmap_height = 1, bitmap_data = [1, 2, 3, 0, 0, 0, 255, 255]\<rparr>
   \<and> (0::nat) < 2 * 1
   \<and> pixelAlpha [1, 2, 3, 0, 0, 0, 255, 255] 0 = 0
   \<and> pixelAlpha (bitmap_data (multiPass [\<lparr>pass_color = RGBColor 0 0 255, pass_threshold = 10\<rparr>]
        \<lparr>bitmap_width = 2, bitmap_height = 1, bitmap_data = [1, 2, 3, 0, 0, 0, 255, 255]\<rparr>)) 0 = 0
   \<and> pixelColor (bitmap_data (multiPass [\<lparr>pass_color = RGBColor 0 0 255, pass_threshold = 10\<rparr>]
        \<lparr>bitmap_width = 2, bitmap_height = 1, bitmap_data = [1, 2, 3, 0, 0, 0, 255, 255]\<rparr>)) 0
       = RGBColor 1 2 3"
  using multi_pass_transparent_stays[of
      "\<lparr>bitmap_width = 2, bitmap_height = 1, bitmap_data = [1, 2, 3, 0, 0, 0, 255, 255]\<rparr>" 0
      "[\<lparr>pass_color = RGBColor 0 0 255, pass_threshold = 10\<rparr>]" "[]" "[]"]
  by (simp add: wf_bitmap_def pixelAlpha_def pixelColor_def)

section \<open>Single pass and one-element multi pass\<close>

lemma fold_fst_cong:
  assumes "\<And>x d c c'. fst (f x (d, c)) = fst (g x (d, c'))"
  shows "fst (fold f xs (d, c)) = fst (fold g xs (d, c'))"
proof (induction xs arbitrary: d c c')
  case Nil
  show ?case by simp
next
  case (Cons x xs)
  obtain d1 c1 where f: "f x (d, c) = (d1, c1)" by (cases "f x (d, c)")
  obtain d2 c2 where g: "g x (d, c') = (d2, c2)" by (cases "g x (d, c')")
  have "d1 = d2" using assms[of x d c c'] f g by simp
  then show ?case using Cons.IH[of d1 c1 c2] f g by simp
qed

lemma single_multi_pixel:
  assumes "feather this = 0"
  shows "fst (singlePassPixel this tc x y idx (d, c)) =
         fst (multiPassPixel \<lparr>pass_color = tc, pass_threshold = threshold this\<rparr> x y idx (d, c'))"
proof -
  have "d[idx + 3 := 0] = d" if "d ! (idx + 3) = 0"
    using that by (metis list_update_id)
  then show ?thesis using assms
    by (simp add: singlePassPixel_def multiPassPixel_def Let_def)
qed

lemma singlePass_eq_multiPass:
  assumes "feather this = 0"
  shows "fst (singlePass this tc img) = multiPass [\<lparr>pass_color = tc, pass_threshold = threshold this\<rparr>] img"
  unfolding multiPass_def onePass_def scan_linear
  using fold_fst_cong[of "\<lambda>k. singlePassPixel this tc (k mod bitmap_width img) (k div bitmap_width img) (4 * k)"
      "\<lambda>k. multiPassPixel \<lparr>pass_color = tc, pass_threshold = threshold this\<rparr> (k mod bitmap_width img) (k div bitmap_width img) (4 * k)"
      "[0..<bitmap_width img * bitmap_height img]" "bitmap_data img" 0 0, OF single_multi_pixel[OF assms]]
  by (auto simp add: singlePass_def scan_linear Let_def split: prod.splits)

lemma removeBackgroundColor_single_multi:
  "removeBackgroundColor (this\<lparr>targetColor := Some c, threshold := t, feather := 0, colorPasses := None\<rparr>) env
     = removeBackgroundColor (this\<lparr>colorPasses := Some [\<lparr>pass_color = c, pass_threshold = t\<rparr>]\<rparr>) env"
proof -
  have "fst (singlePass (this\<lparr>targetColor := Some c, threshold := t, feather := 0, colorPasses := None\<rparr>) c img)
      = multiPass [\<lparr>pass_color = c, pass_threshold = t\<rparr>] img" for img
    using singlePass_eq_multiPass[of "this\<lparr>targetColor := Some c, threshold := t, feather := 0, colorPasses := None\<rparr>" c img]
    by simp
  then show ?thesis
    by (simp add: removeBackgroundColor_def Let_def split: option.splits prod.splits) (metis fst_conv)
qed

text \<open>
  Claim C10.  For every image, colour \<open>c\<close> and threshold \<open>t\<close>, the single-pass scan with
  feather width 0, threshold \<open>t\<close> and target colour \<open>c\<close> leaves the same image as the
  multi-pass loop with the one pass \<^verbatim>\<open>{color: c, threshold: t}\<close>, and
  \<^verbatim>\<open>removeBackgroundColor\<close> has the same outcome in the two configurations: the single-pass
  callback does not skip a transparent pixel, but all it can do to one is store the 0
  that is already there.
\<close>

theorem single_pass_is_one_element_multi_pass:
  "fst (singlePass (this\<lparr>threshold := t, feather := 0\<rparr>) c img)
     = multiPass [\<lparr>pass_color = c, pass_threshold = t\<rparr>] img
   \<and> removeBackgroundColor (this\<lparr>targetColor := Some c, threshold := t, feather := 0, colorPasses := None\<rparr>) env
     = removeBackgroundColor (this\<lparr>colorPasses := Some [\<lparr>pass_color = c, pass_threshold = t\<rparr>]\<rparr>) env"
  using singlePass_eq_multiPass[of "this\<lparr>threshold := t, feather := 0\<rparr>" c img]
    removeBackgroundColor_single_multi
  by simp

lemma scan_1x2: "scan 2 (Suc 0) f s = f 1 0 4 (f 0 0 0 s)"
  by (simp add: scan_def upt_rec)

theorem single_pass_is_one_element_multi_pass_witness:
  "bitmap_data (multiPass [\<lparr>pass_color = RGBColor 0 0 255, pass_threshold = 10\<rparr>]
      \<lparr>bitmap_width = 2, bitmap_height = 1, bitmap_data = [0, 0, 250, 255, 9, 9, 9, 0]\<rparr>)
     = [0, 0, 250, 0, 9, 9, 9, 0]
   \<and> fst (singlePass (constructor (colorOptions (RGBColor 0 0 255) 10 0)) (RGBColor 0 0 255)
      \<lparr>bitmap_width = 2, bitmap_height = 1, bitmap_data = [0, 0, 250, 255, 9, 9, 9, 0]\<rparr>)
     = \<lparr>bitmap_width = 2, bitmap_height = 1, bitmap_data = [0, 0, 250, 0, 9, 9, 9, 0]\<rparr>"
proof -
  have c: "constructor (colorOptions (RGBColor 0 0 255) 10 0)
      = (constructor (colorOptions (RGBColor 0 0 255) 10 0))\<lparr>threshold := 10, feather := 0\<rparr>"
    by (simp add: constructor_def colorOptions_def or_real_def)
  have m: "multiPass [\<lparr>pass_color = RGBColor 0 0 255, pass_threshold = 10\<rparr>]
      \<lparr>bitmap_width = 2, bitmap_height = 1, bitmap_data = [0, 0, 250, 255, 9, 9, 9, 0]\<rparr>
     = \<lparr>bitmap_width = 2, bitmap_height = 1, bitmap_data = [0, 0, 250, 0, 9, 9, 9, 0]\<rparr>"
    by (simp add: multiPass_def onePass_def scan_1x2 multiPassPixel_def calculateColorDistance_def Let_def)
  show ?thesis
    using single_pass_is_one_element_multi_pass[where this = "constructor (colorOptions (RGBColor 0 0 255) 10 0)"
      and t = 10 and c = "RGBColor 0 0 255"
      and img = "\<lparr>bitmap_width = 2, bitmap_height = 1, bitmap_data = [0, 0, 250, 255, 9, 9, 9, 0]\<rparr>"]
    unfolding c[symmetric] m by simp
qed

section \<open>Configuration errors\<close>

lemma removeBackgroundColor_no_color:
  assumes "targetColor this = None"
    and "colorPasses this = None \<or> colorPasses this = Some []"
  shows "removeBackgroundColor this env =
     (if \<not> fileExists env then Inl InputNotFound
      else if inputExt env \<notin> set supportedFormats then Inl UnsupportedFormat
      else Inl TargetColorNotSpecified)"
  using assms by (auto simp: removeBackgroundColor_def)

lemma removeBackgroundColor_threshold_unchecked:
  "map_sum id (\<lambda>img. ()) (removeBackgroundColor (this\<lparr>threshold := t\<rparr>) env)
     = map_sum id (\<lambda>img. ()) (removeBackgroundColor this env)"
  by (simp add: removeBackgroundColor_def Let_def split: option.splits prod.splits)

text \<open>
  Claim C7, as amended.  When the options give no target colour and no pass (no
  \<^verbatim>\<open>colorPasses\<close>, or an empty list), \<^verbatim>\<open>removeBackgroundColor\<close> fails before it decodes the
  image: after the two checks of the input path it reports the missing target colour,
  whatever the image, and writes nothing.  The threshold is not checked anywhere:
  whether \<^verbatim>\<open>removeBackgroundColor\<close> fails, and with which error, does not depend on the
  threshold.
\<close>

theorem missing_target_color_reported:
  assumes "opt_targetColor options = None"
    and "opt_colorPasses options = None \<or> opt_colorPasses options = Some []"
  shows "removeBackgroundColor (constructor options) env =
           (if \<not> fileExists env then Inl InputNotFound
            else if inputExt env \<notin> set supportedFormats then Inl UnsupportedFormat
            else Inl TargetColorNotSpecified)
       \<and> map_sum id (\<lambda>img. ()) (removeBackgroundColor (this\<lparr>threshold := t\<rparr>) env')
           = map_sum id (\<lambda>img. ()) (removeBackgroundColor this env')"
  using removeBackgroundColor_no_color[of "constructor options" env] assms
    removeBackgroundColor_threshold_unchecked[where this = this and t = t and env = env']
  by (simp add: constructor_def)

theorem missing_target_color_reported_witness:
  "opt_targetColor ((colorOptions (RGBColor 0 0 0) 50 0)\<lparr>opt_targetColor := None\<rparr>) = None
   \<and> opt_colorPasses ((colorOptions (RGBColor 0 0 0) 50 0)\<lparr>opt_targetColor := None\<rparr>) = None
   \<and> removeBackgroundColor (constructor ((colorOptions (RGBColor 0 0 0) 50 0)\<lparr>opt_targetColor := None\<rparr>))
        \<lparr>fileExists = True, inputExt = ''.png'',
          decoded = Some \<lparr>bitmap_width = 1, bitmap_height = 1, bitmap_data = [0, 0, 0, 255]\<rparr>,
          writable = True\<rparr>
       = Inl TargetColorNotSpecified"
  using missing_target_color_reported[of "(colorOptions (RGBColor 0 0 0) 50 0)\<lparr>opt_targetColor := None\<rparr>"
      "\<lparr>fileExists = True, inputExt = ''.png'',
          decoded = Some \<lparr>bitmap_width = 1, bitmap_height = 1, bitmap_data = [0, 0, 0, 255]\<rparr>,
          writable = True\<rparr>"]
  by (simp add: colorOptions_def supportedFormats_def)

lemma scan_1x1: "scan (Suc 0) (Suc 0) f s = f 0 0 0 s"
  by (simp add: scan_def)

text \<open>
  Thresholds outside the range 0 to 441 are accepted and the image is processed: with
  threshold 1000 a red pixel is removed for the target colour blue, with threshold -5
  the image is written unchanged.
\<close>

theorem invalid_threshold_counterexample:
  "removeBackgroundColor (constructor (colorOptions (RGBColor 0 0 255) 1000 0))
      \<lparr>fileExists = True, inputExt = ''.png'',
        decoded = Some \<lparr>bitmap_width = 1, bitmap_height = 1, bitmap_data = [255, 0, 0, 255]\<rparr>,
        writable = True\<rparr>
     = Inr \<lparr>bitmap_width = 1, bitmap_height = 1, bitmap_data = [255, 0, 0, 0]\<rparr>
   \<and> removeBackgroundColor (constructor (colorOptions (RGBColor 0 0 255) (- 5) 0))
      \<lparr>fileExists = True, inputExt = ''.png'',
        decoded = Some \<lparr>bitmap_width = 1, bitmap_height = 1, bitmap_data = [255, 0, 0, 255]\<rparr>,
        writable = True\<rparr>
     = Inr \<lparr>bitmap_width = 1, bitmap_height = 1, bitmap_data = [255, 0, 0, 255]\<rparr>"
proof -
  have "sqrt 130050 \<le> 1000"
    by (rule real_le_lsqrt) simp_all
  moreover have "\<not> sqrt 130050 \<le> - 5"
    using real_sqrt_ge_zero[of 130050] by linarith
  ultimately show ?thesis
    by (simp add: removeBackgroundColor_def constructor_def colorOptions_def or_real_def
        supportedFormats_def singlePass_def scan_1x1 singlePassPixel_def
        calculateColorDistance_def Let_def)
qed

section \<open>OCR failure\<close>

lemma drawRegions_Nil: "drawRegions padding originalImage [] combinedMask = combinedMask"
  by (simp add: drawRegions_def)

text \<open>
  Claim C8.  A failure of the OCR engine is absorbed only when it is a rejection of the
  awaited promise and nothing more: then \<^verbatim>\<open>detectTextRegions\<close> returns the empty list, and
  \<^verbatim>\<open>removeBackgroundHybrid\<close> in OCR mode writes the cutout as it is (the person-only mask).
  When the recognition fails in the worker of the library, \<^verbatim>\<open>detectTextRegions\<close> returns
  nothing: no \<^verbatim>\<open>errorHandler\<close> being passed, the error is thrown outside the awaited call as
  well, and \<^verbatim>\<open>removeBackgroundHybrid\<close>, given an input file that passes the checks and a
  cutout from the segmentation model, ends with that uncaught error whether or not the
  output is writable.
\<close>

theorem ocr_worker_failure_uncaught:
  "detectTextRegions (WorkerFailed message) = Inl (UncaughtException message)
   \<and> detectTextRegions (Rejected message) = Inr []
   \<and> (h_fileExists env \<and> h_inputExt env \<in> set supportedFormats
        \<and> personMask env = Some pm \<and> original env = Some originalImage
        \<and> textDetectionMode this = ''ocr'' \<and> recognized env = WorkerFailed message
      \<longrightarrow> removeBackgroundHybrid this env = Inl (Uncaught (UncaughtException message)))
   \<and> (h_fileExists env \<and> h_inputExt env \<in> set supportedFormats
        \<and> personMask env = Some pm \<and> original env = Some originalImage
        \<and> textDetectionMode this = ''ocr'' \<and> recognized env = Rejected message \<and> h_writable env
      \<longrightarrow> removeBackgroundHybrid this env = Inr pm)"
  by (simp add: detectTextRegions_def removeBackgroundHybrid_def drawRegions_Nil)

theorem ocr_worker_failure_uncaught_witness:
  "removeBackgroundHybrid (constructor ((colorOptions (RGBColor 0 0 0) 50 0)\<lparr>opt_mode := Some ''hybrid'', opt_textDetectionMode := Some ''ocr''\<rparr>))
      \<lparr>h_fileExists = True, h_inputExt = ''.jpg'',
        personMask = Some \<lparr>bitmap_width = 1, bitmap_height = 1, bitmap_data = [7, 8, 9, 0]\<rparr>,
        original = Some \<lparr>bitmap_width = 1, bitmap_height = 1, bitmap_data = [7, 8, 9, 255]\<rparr>,
        recognized = WorkerFailed ''recognize failed'', h_writable = True\<rparr>
     = Inl (Uncaught (UncaughtException ''recognize failed''))"
  using ocr_worker_failure_uncaught[of "''recognize failed''"
      "\<lparr>h_fileExists = True, h_inputExt = ''.jpg'',
        personMask = Some \<lparr>bitmap_width = 1, bitmap_height = 1, bitmap_data = [7, 8, 9, 0]\<rparr>,
        original = Some \<lparr>bitmap_width = 1, bitmap_height = 1, bitmap_data = [7, 8, 9, 255]\<rparr>,
        recognized = WorkerFailed ''recognize failed'', h_writable = True\<rparr>"
      "\<lparr>bitmap_width = 1, bitmap_height = 1, bitmap_data = [7, 8, 9, 0]\<rparr>"
      "\<lparr>bitmap_width = 1, bitmap_height = 1, bitmap_data = [7, 8, 9, 255]\<rparr>"
      "constructor ((colorOptions (RGBColor 0 0 0) 50 0)\<lparr>opt_mode := Some ''hybrid'', opt_textDetectionMode := Some ''ocr''\<rparr>)"]
  by (simp add: supportedFormats_def constructor_def colorOptions_def or_string_def)

section \<open>Drawing regions\<close>

lemma fold_set_cong:
  assumes comm: "\<And>x y s. f x (f y s) = f y (f x s)"
    and idem: "\<And>x s. f x (f x s) = f x s"
    and "set xs = set ys"
  shows "fold f xs s = fold f ys s"
proof -
  have "comp_fun_idem_on UNIV f"
    by unfold_locales (auto simp: fun_eq_iff comm idem)
  from comp_fun_idem_on.fold_set_fold[OF this, of xs s] comp_fun_idem_on.fold_set_fold[OF this, of ys s]
  show ?thesis using assms(3) by simp
qed

lemma copyPixel_storePixel:
  "copyPixel originalImage px py m =
     m\<lparr>bitmap_data := storePixel (bitmap_data originalImage) (getPixelIndex m px py) (bitmap_data m)\<rparr>"
  by (simp add: copyPixel_def storePixel_def Let_def)

lemma length_bufferSet [simp]: "length (bufferSet d i v) = length d"
  by (simp add: bufferSet_def)

lemma nth_bufferSet:
  "j < length d \<Longrightarrow> bufferSet d i v ! j = (if int j = i then (case v of None \<Rightarrow> 0 | Some b \<Rightarrow> b) else d ! j)"
  by (auto simp: bufferSet_def nth_list_update)

lemma length_storePixel [simp]: "length (storePixel o_data i d) = length d"
  by (simp add: storePixel_def)

lemma nth_storePixel:
  assumes "j < length d"
  shows "storePixel o_data i d ! j =
     (if i \<le> int j \<and> int j \<le> i + 3 then storedByte o_data i (int j) else d ! j)"
proof -
  have "int j = i \<or> int j = i + 1 \<or> int j = i + 2 \<or> int j = i + 3 \<or> \<not> (i \<le> int j \<and> int j \<le> i + 3)"
    by linarith
  then show ?thesis
    using assms by (auto simp add: storePixel_def nth_bufferSet storedByte_def)
qed

lemma storePixel_idem: "storePixel o_data i (storePixel o_data i d) = storePixel o_data i d"
  by (rule nth_equalityI) (simp_all add: nth_storePixel)

lemma storePixel_commute:
  assumes "i = i' \<or> i + 4 \<le> i' \<or> i' + 4 \<le> i"
  shows "storePixel o_data i (storePixel o_data i' d) = storePixel o_data i' (storePixel o_data i d)"
proof (cases "i = i'")
  case True
  then show ?thesis by simp
next
  case False
  show ?thesis
  proof (rule nth_equalityI)
    show "length (storePixel o_data i (storePixel o_data i' d)) = length (storePixel o_data i' (storePixel o_data i d))"
      by simp
  next
    fix j assume "j < length (storePixel o_data i (storePixel o_data i' d))"
    then have j: "j < length d" by simp
    have "\<not> (i \<le> int j \<and> int j \<le> i + 3 \<and> i' \<le> int j \<and> int j \<le> i' + 3)"
      using assms False by linarith
    then show "storePixel o_data i (storePixel o_data i' d) ! j = storePixel o_data i' (storePixel o_data i d) ! j"
      using j by (auto simp add: nth_storePixel)
  qed
qed

lemma clampCoord_bounds: "0 < n \<Longrightarrow> 0 \<le> clampCoord n v \<and> clampCoord n v < n"
  by (simp add: clampCoord_def)

lemma getPixelIndex_empty:
  assumes "bitmap_width m = 0 \<or> bitmap_height m = 0"
  shows "getPixelIndex m px py = - 1"
  using assms by (auto simp: getPixelIndex_def Let_def clampCoord_def)

lemma getPixelIndex_nonempty:
  assumes "0 < bitmap_width m" "0 < bitmap_height m"
  shows "getPixelIndex m px py =
      (int (bitmap_width m) * clampCoord (int (bitmap_height m)) py + clampCoord (int (bitmap_width m)) px) * 4"
  using clampCoord_bounds[of "int (bitmap_width m)" px] clampCoord_bounds[of "int (bitmap_height m)" py] assms
  by (simp add: getPixelIndex_def Let_def)

lemma getPixelIndex_separated:
  "getPixelIndex m px py = getPixelIndex m px' py'
   \<or> getPixelIndex m px py + 4 \<le> getPixelIndex m px' py'
   \<or> getPixelIndex m px' py' + 4 \<le> getPixelIndex m px py"
proof (cases "bitmap_width m = 0 \<or> bitmap_height m = 0")
  case True
  then show ?thesis by (simp add: getPixelIndex_empty)
next
  case False
  then have pos: "0 < bitmap_width m" "0 < bitmap_height m" by simp_all
  have "a * 4 = b * 4 \<or> a * 4 + 4 \<le> b * 4 \<or> b * 4 + 4 \<le> a * 4" for a b :: int
    by presburger
  then show ?thesis unfolding getPixelIndex_nonempty[OF pos] by blast
qed

lemma getPixelIndex_geometry:
  "getPixelIndex (m\<lparr>bitmap_data := d\<rparr>) px py = getPixelIndex m px py"
  by (simp add: getPixelIndex_def)

lemma copyPixel_idem:
  "copyPixel originalImage px py (copyPixel originalImage px py m) = copyPixel originalImage px py m"
  by (simp add: copyPixel_storePixel getPixelIndex_geometry storePixel_idem)

lemma copyPixel_commute:
  "copyPixel originalImage px py (copyPixel originalImage px' py' m)
     = copyPixel originalImage px' py' (copyPixel originalImage px py m)"
  using storePixel_commute[OF getPixelIndex_separated[of m px py px' py'], of "bitmap_data originalImage" "bitmap_data m"]
  by (simp add: copyPixel_storePixel getPixelIndex_geometry)

lemma fold_concat: "fold f (concat xss) = fold (fold f) xss"
  by (induction xss) simp_all

lemma drawRegion_cells:
  "drawRegion padding originalImage region m =
     fold (\<lambda>(px, py). copyPixel originalImage px py)
       (regionCells (int (bitmap_width originalImage)) (int (bitmap_height originalImage)) padding region) m"
  by (simp add: drawRegion_def regionCells_def Let_def fold_concat fold_map comp_def)

lemma drawRegions_cells:
  "drawRegions padding originalImage regions m =
     fold (\<lambda>(px, py). copyPixel originalImage px py)
       (concat (map (regionCells (int (bitmap_width originalImage)) (int (bitmap_height originalImage)) padding) regions)) m"
proof -
  have "drawRegion padding originalImage =
      (\<lambda>region. fold (\<lambda>(px, py). copyPixel originalImage px py)
       (regionCells (int (bitmap_width originalImage)) (int (bitmap_height originalImage)) padding region))"
    by (rule ext)+ (simp add: drawRegion_cells)
  then show ?thesis
    by (simp add: drawRegions_def fold_concat fold_map comp_def)
qed

lemma drawRegions_set_cong:
  assumes "set regions' = set regions"
  shows "drawRegions padding originalImage regions' m = drawRegions padding originalImage regions m"
  unfolding drawRegions_cells
proof (rule fold_set_cong)
  fix x y :: "int \<times> int" and s :: Bitmap
  obtain px py where x: "x = (px, py)" by (cases x)
  obtain px' py' where y: "y = (px', py')" by (cases y)
  show "(case x of (px, py) \<Rightarrow> copyPixel originalImage px py)
          ((case y of (px, py) \<Rightarrow> copyPixel originalImage px py) s)
      = (case y of (px, py) \<Rightarrow> copyPixel originalImage px py)
          ((case x of (px, py) \<Rightarrow> copyPixel originalImage px py) s)"
    unfolding x y prod.case by (rule copyPixel_commute)
  show "(case x of (px, py) \<Rightarrow> copyPixel originalImage px py)
          ((case x of (px, py) \<Rightarrow> copyPixel originalImage px py) s)
      = (case x of (px, py) \<Rightarrow> copyPixel originalImage px py) s"
    unfolding x prod.case by (rule copyPixel_idem)
next
  show "set (concat (map (regionCells (int (bitmap_width originalImage)) (int (bitmap_height originalImage)) padding) regions'))
      = set (concat (map (regionCells (int (bitmap_width originalImage)) (int (bitmap_height originalImage)) padding) regions))"
    using assms by simp
qed

lemma drawRegions_twice:
  "drawRegions padding originalImage regions (drawRegions padding originalImage regions m)
     = drawRegions padding originalImage regions m"
proof -
  have "drawRegions padding originalImage regions (drawRegions padding originalImage regions m)
      = drawRegions padding originalImage (regions @ regions) m"
    by (simp add: drawRegions_def)
  also have "\<dots> = drawRegions padding originalImage regions m"
    by (rule drawRegions_set_cong) simp
  finally show ?thesis .
qed

text \<open>
  Claim C6.  For every base raster, source raster, padding and list of regions, drawing
  the regions on the result of drawing them gives the same raster as drawing them once,
  and drawing them in any other order (any list with the same regions, each as often)
  gives the same raster.
\<close>

theorem drawRegions_idempotent_any_order:
  "drawRegions padding originalImage regions (drawRegions padding originalImage regions base)
     = drawRegions padding originalImage regions base
   \<and> (mset regions' = mset regions \<longrightarrow>
        drawRegions padding originalImage regions' base = drawRegions padding originalImage regions base)"
  using drawRegions_twice[of padding originalImage regions base]
    drawRegions_set_cong[of regions' regions padding originalImage base] mset_eq_setD[of regions' regions]
  by blast

theorem drawRegions_idempotent_any_order_witness:
  "mset [\<lparr>reg_x = 1, reg_y = 0, reg_width = 1, reg_height = 1, pixelCount = None, reg_text = None, confidence = None\<rparr>,
         \<lparr>reg_x = 0, reg_y = 0, reg_width = 2, reg_height = 1, pixelCount = None, reg_text = None, confidence = None\<rparr>]
     = mset [\<lparr>reg_x = 0, reg_y = 0, reg_width = 2, reg_height = 1, pixelCount = None, reg_text = None, confidence = None\<rparr>,
         \<lparr>reg_x = 1, reg_y = 0, reg_width = 1, reg_height = 1, pixelCount = None, reg_text = None, confidence = None\<rparr>]
   \<and> drawRegions 0 \<lparr>bitmap_width = 2, bitmap_height = 1, bitmap_data = [1, 2, 3, 4, 5, 6, 7, 8]\<rparr>
        [\<lparr>reg_x = 1, reg_y = 0, reg_width = 1, reg_height = 1, pixelCount = None, reg_text = None, confidence = None\<rparr>,
         \<lparr>reg_x = 0, reg_y = 0, reg_width = 2, reg_height = 1, pixelCount = None, reg_text = None, confidence = None\<rparr>]
        \<lparr>bitmap_width = 2, bitmap_height = 1, bitmap_data = [0, 0, 0, 0, 0, 0, 0, 0]\<rparr>
     = drawRegions 0 \<lparr>bitmap_width = 2, bitmap_height = 1, bitmap_data = [1, 2, 3, 4, 5, 6, 7, 8]\<rparr>
        [\<lparr>reg_x = 0, reg_y = 0, reg_width = 2, reg_height = 1, pixelCount = None, reg_text = None, confidence = None\<rparr>,
         \<lparr>reg_x = 1, reg_y = 0, reg_width = 1, reg_height = 1, pixelCount = None, reg_text = None, confidence = None\<rparr>]
        \<lparr>bitmap_width = 2, bitmap_height = 1, bitmap_data = [0, 0, 0, 0, 0, 0, 0, 0]\<rparr>"
  using drawRegions_idempotent_any_order[of 0
      "\<lparr>bitmap_width = 2, bitmap_height = 1, bitmap_data = [1, 2, 3, 4, 5, 6, 7, 8]\<rparr>"
      "[\<lparr>reg_x = 0, reg_y = 0, reg_width = 2, reg_height = 1, pixelCount = None, reg_text = None, confidence = None\<rparr>,
        \<lparr>reg_x = 1, reg_y = 0, reg_width = 1, reg_height = 1, pixelCount = None, reg_text = None, confidence = None\<rparr>]"
      "\<lparr>bitmap_width = 2, bitmap_height = 1, bitmap_data = [0, 0, 0, 0, 0, 0, 0, 0]\<rparr>"
      "[\<lparr>reg_x = 1, reg_y = 0, reg_width = 1, reg_height = 1, pixelCount = None, reg_text = None, confidence = None\<rparr>,
        \<lparr>reg_x = 0, reg_y = 0, reg_width = 2, reg_height = 1, pixelCount = None, reg_text = None, confidence = None\<rparr>]"]
  by (simp add: add_mset_commute)

lemma drawRegions_example:
  "drawRegions 0 \<lparr>bitmap_width = 2, bitmap_height = 1, bitmap_data = [1, 2, 3, 4, 5, 6, 7, 8]\<rparr>
        [\<lparr>reg_x = 1, reg_y = 0, reg_width = 1, reg_height = 1, pixelCount = None, reg_text = None, confidence = None\<rparr>]
        \<lparr>bitmap_width = 2, bitmap_height = 1, bitmap_data = [0, 0, 0, 0, 0, 0, 0, 0]\<rparr>
   = \<lparr>bitmap_width = 2, bitmap_height = 1, bitmap_data = [0, 0, 0, 0, 5, 6, 7, 255]\<rparr>"
  by (simp add: drawRegions_def drawRegion_def paddedRows_def paddedCols_def copyPixel_def
      getPixelIndex_def clampCoord_def bufferSet_def bufferGet_def Let_def upto_rec1)

section \<open>Clipping\<close>

lemma paddedRows_bounds: "py \<in> set (paddedRows height padding region) \<Longrightarrow> 0 \<le> py \<and> py < height"
  by (auto simp: paddedRows_def)

lemma paddedCols_bounds: "px \<in> set (paddedCols width padding region) \<Longrightarrow> 0 \<le> px \<and> px < width"
  by (auto simp: paddedCols_def)

lemma getPixelIndex_inside:
  assumes "0 \<le> px" "px < int (bitmap_width m)" "0 \<le> py" "py < int (bitmap_height m)"
  shows "getPixelIndex m px py = (int (bitmap_width m) * py + px) * 4"
  using assms by (simp add: getPixelIndex_def clampCoord_def Let_def)

lemma pixel_bytes_inside:
  assumes "wf_bitmap m" "0 \<le> px" "px < int (bitmap_width m)" "0 \<le> py" "py < int (bitmap_height m)"
  shows "0 \<le> getPixelIndex m px py \<and> getPixelIndex m px py + 3 < int (length (bitmap_data m))"
proof -
  have "0 \<le> py * int (bitmap_width m) + px"
    "py * int (bitmap_width m) + px < int (bitmap_width m) * int (bitmap_height m)"
    using cell_index_bounds[OF assms(2-5)] by simp_all
  moreover have "int (length (bitmap_data m)) = 4 * (int (bitmap_width m) * int (bitmap_height m))"
    using assms(1) by (simp add: wf_bitmap_def)
  ultimately show ?thesis
    unfolding getPixelIndex_inside[OF assms(2-5)] by (simp add: mult.commute)
qed

lemma copyPixel_geometry:
  "bitmap_width (copyPixel originalImage px py m) = bitmap_width m"
  "bitmap_height (copyPixel originalImage px py m) = bitmap_height m"
  "length (bitmap_data (copyPixel originalImage px py m)) = length (bitmap_data m)"
  by (simp_all add: copyPixel_storePixel)

text \<open>
  Claim C9.  For every region and padding, every pixel \<open>(px, py)\<close> that the loops of
  \<^verbatim>\<open>removeBackgroundHybrid\<close> visit for the region lies in
  \<open>[0, width) \<times> [0, height)\<close> of the original image: the padded rectangle is clipped
  before a pixel is indexed.  When the mask and the original image are well formed and
  of the same size (the cutout of the segmentation model has the size of its input), the
  index \<^verbatim>\<open>getPixelIndex\<close> returns is that of the pixel, the four bytes at it lie inside
  both buffers, and the mask after the stores is again well formed and of the same size,
  so the same holds for every later pixel.
\<close>

theorem region_pixels_within_bounds:
  "\<forall>py \<in> set (paddedRows (int (bitmap_height originalImage)) padding region).
   \<forall>px \<in> set (paddedCols (int (bitmap_width originalImage)) padding region).
     0 \<le> px \<and> px < int (bitmap_width originalImage) \<and>
     0 \<le> py \<and> py < int (bitmap_height originalImage) \<and>
     (wf_bitmap originalImage \<and> wf_bitmap combinedMask \<and>
      bitmap_width combinedMask = bitmap_width originalImage \<and>
      bitmap_height combinedMask = bitmap_height originalImage \<longrightarrow>
        getPixelIndex combinedMask px py = (int (bitmap_width originalImage) * py + px) * 4 \<and>
        0 \<le> getPixelIndex combinedMask px py \<and>
        getPixelIndex combinedMask px py + 3 < int (length (bitmap_data combinedMask)) \<and>
        getPixelIndex combinedMask px py + 3 < int (length (bitmap_data originalImage)) \<and>
        wf_bitmap (copyPixel originalImage px py combinedMask) \<and>
        bitmap_width (copyPixel originalImage px py combinedMask) = bitmap_width originalImage \<and>
        bitmap_height (copyPixel originalImage px py combinedMask) = bitmap_height originalImage)"
proof (intro ballI conjI impI)
  fix py px
  assume py: "py \<in> set (paddedRows (int (bitmap_height originalImage)) padding region)"
    and px: "px \<in> set (paddedCols (int (bitmap_width originalImage)) padding region)"
  show b: "0 \<le> px" "px < int (bitmap_width originalImage)" "0 \<le> py" "py < int (bitmap_height originalImage)"
    using paddedRows_bounds[OF py] paddedCols_bounds[OF px] by simp_all
  assume wf: "wf_bitmap originalImage \<and> wf_bitmap combinedMask \<and>
      bitmap_width combinedMask = bitmap_width originalImage \<and>
      bitmap_height combinedMask = bitmap_height originalImage"
  then have b': "0 \<le> px" "px < int (bitmap_width combinedMask)" "0 \<le> py" "py < int (bitmap_height combinedMask)"
    using b by simp_all
  show "getPixelIndex combinedMask px py = (int (bitmap_width originalImage) * py + px) * 4"
    using getPixelIndex_inside[OF b'] wf by simp
  show "0 \<le> getPixelIndex combinedMask px py"
    "getPixelIndex combinedMask px py + 3 < int (length (bitmap_data combinedMask))"
    using pixel_bytes_inside[OF _ b'] wf by simp_all
  then show "getPixelIndex combinedMask px py + 3 < int (length (bitmap_data originalImage))"
    using wf by (simp add: wf_bitmap_def)
  show "wf_bitmap (copyPixel originalImage px py combinedMask)"
    "bitmap_width (copyPixel originalImage px py combinedMask) = bitmap_width originalImage"
    "bitmap_height (copyPixel originalImage px py combinedMask) = bitmap_height originalImage"
    using wf by (simp_all add: wf_bitmap_def copyPixel_geometry)
qed

theorem region_pixels_within_bounds_witness:
  "paddedRows 1 5 \<lparr>reg_x = - 3, reg_y = 0, reg_width = 10, reg_height = 1, pixelCount = None, reg_text = None, confidence = None\<rparr> = [0]
   \<and> paddedCols 2 5 \<lparr>reg_x = - 3, reg_y = 0, reg_width = 10, reg_height = 1, pixelCount = None, reg_text = None, confidence = None\<rparr> = [0, 1]
   \<and> wf_bitmap \<lparr>bitmap_width = 2, bitmap_height = 1, bitmap_data = [1, 2, 3, 4, 5, 6, 7, 8]\<rparr>
   \<and> wf_bitmap \<lparr>bitmap_width = 2, bitmap_height = 1, bitmap_data = [0, 0, 0, 0, 0, 0, 0, 0]\<rparr>
   \<and> getPixelIndex \<lparr>bitmap_width = 2, bitmap_height = 1, bitmap_data = [0, 0, 0, 0, 0, 0, 0, 0]\<rparr> 1 0 = 4"
  using region_pixels_within_bounds[of "\<lparr>bitmap_width = 2, bitmap_height = 1, bitmap_data = [1, 2, 3, 4, 5, 6, 7, 8]\<rparr>" 5
      "\<lparr>reg_x = - 3, reg_y = 0, reg_width = 10, reg_height = 1, pixelCount = None, reg_text = None, confidence = None\<rparr>"
      "\<lparr>bitmap_width = 2, bitmap_height = 1, bitmap_data = [0, 0, 0, 0, 0, 0, 0, 0]\<rparr>"]
  by (simp add: paddedRows_def paddedCols_def wf_bitmap_def upto_rec1)

section \<open>Components of the true cells\<close>

lemma adjacent8_directions:
  "adjacent8 p q \<longleftrightarrow> (\<exists>d \<in> set directions. q = (fst p + fst d, snd p + snd d))"
proof
  assume a: "adjacent8 p q"
  define dx dy where "dx = fst q - fst p" and "dy = snd q - snd p"
  have q: "q = (fst p + dx, snd p + dy)" by (simp add: dx_def dy_def)
  have "dx \<in> {-1, 0, 1}" "dy \<in> {-1, 0, 1}" "(dx, dy) \<noteq> (0, 0)"
    using a by (auto simp: adjacent8_def dx_def dy_def prod_eq_iff)
  then have "(dx, dy) \<in> set directions"
    by (auto simp: directions_def)
  then show "\<exists>d \<in> set directions. q = (fst p + fst d, snd p + snd d)"
    using q by force
next
  assume "\<exists>d \<in> set directions. q = (fst p + fst d, snd p + snd d)"
  then show "adjacent8 p q"
    by (cases p) (auto simp: directions_def adjacent8_def)
qed

lemma adjacent8_sym: "adjacent8 p q \<Longrightarrow> adjacent8 q p"
  by (auto simp: adjacent8_def)

lemma touching_sym: "sym (touching T)"
  by (auto simp: sym_def touching_def adjacent8_sym)

lemma component_self: "p \<in> component T p"
  by (simp add: component_def)

lemma component_step:
  "q \<in> component T p \<Longrightarrow> q \<in> T \<Longrightarrow> r \<in> T \<Longrightarrow> adjacent8 q r \<Longrightarrow> r \<in> component T p"
  unfolding component_def touching_def
  by (auto intro: rtrancl_into_rtrancl)

lemma component_subset: "p \<in> T \<Longrightarrow> component T p \<subseteq> T"
proof
  fix q assume p: "p \<in> T" and "q \<in> component T p"
  then have "(p, q) \<in> (touching T)\<^sup>*" by (simp add: component_def)
  then show "q \<in> T"
    by (induction rule: rtrancl_induct) (auto simp: p touching_def)
qed

lemma component_eq:
  assumes "q \<in> component T p"
  shows "component T q = component T p"
proof -
  have pq: "(p, q) \<in> (touching T)\<^sup>*" using assms by (simp add: component_def)
  have qp: "(q, p) \<in> (touching T)\<^sup>*"
    using pq sym_rtrancl[OF touching_sym, of T] by (meson symD)
  show ?thesis
    unfolding component_def using pq qp by (auto intro: rtrancl_trans)
qed

lemma components_disjoint:
  assumes "C1 \<in> components T" "C2 \<in> components T" "c \<in> C1" "c \<in> C2"
  shows "C1 = C2"
proof -
  obtain p1 p2 where "C1 = component T p1" "C2 = component T p2"
    using assms by (auto simp: components_def)
  then show ?thesis using component_eq[of c T p1] component_eq[of c T p2] assms by simp
qed

lemma component_least:
  assumes "p \<in> S" and closed: "\<And>a b. a \<in> S \<Longrightarrow> a \<in> T \<Longrightarrow> b \<in> T \<Longrightarrow> adjacent8 a b \<Longrightarrow> b \<in> S"
  shows "component T p \<subseteq> S"
proof
  fix q assume "q \<in> component T p"
  then have "(p, q) \<in> (touching T)\<^sup>*" by (simp add: component_def)
  then show "q \<in> S"
    by (induction rule: rtrancl_induct) (auto simp: assms(1) touching_def intro: closed)
qed

lemma finite_gridCells: "finite (gridCells width height)"
proof -
  have "gridCells width height \<subseteq> {0..<width} \<times> {0..<height}"
    by (auto simp: gridCells_def)
  then show ?thesis by (rule finite_subset) simp
qed

lemma trueCells_subset: "trueCells msk width height \<subseteq> gridCells width height"
  by (auto simp: trueCells_def)

lemma cellIndex_inj:
  assumes "c \<in> gridCells width height" "c' \<in> gridCells width height"
    and "cellIndex width c = cellIndex width c'"
  shows "c = c'"
proof -
  obtain x y where c: "c = (x, y)" by (cases c)
  obtain x' y' where c': "c' = (x', y')" by (cases c')
  have b: "0 \<le> x" "x < width" "0 \<le> x'" "x' < width"
    using assms(1,2) by (simp_all add: gridCells_def c c')
  have e: "y * width + x = y' * width + x'"
    using assms(3) by (simp add: cellIndex_def c c')
  have "(y * width + x) div width = y" "(y' * width + x') div width = y'"
    using b by simp_all
  then have "y = y'" using e by simp
  then show ?thesis using e by (simp add: c c')
qed

lemma cellIndex_fresh:
  assumes "c \<in> gridCells width height" "n \<in> gridCells width height"
  shows "(V(cellIndex width n := True)) (cellIndex width c) \<longleftrightarrow> c = n \<or> V (cellIndex width c)"
  using cellIndex_inj[OF assms] by auto

lemma visitNeighbor_inv:
  assumes inv: "bfsInv width height V0 C D V Q"
    and C: "C = component (trueCells msk width height) s" "s \<in> trueCells msk width height"
    and cur: "(x, y) \<in> C"
    and fresh: "\<forall>c \<in> C. \<not> V0 (cellIndex width c)"
    and d: "d \<in> set directions"
  shows "bfsInv width height V0 C D (fst (visitNeighbor msk width height x y d (V, Q)))
           (snd (visitNeighbor msk width height x y d (V, Q)))
       \<and> set Q \<subseteq> set (snd (visitNeighbor msk width height x y d (V, Q)))
       \<and> ((x + fst d, y + snd d) \<in> trueCells msk width height
            \<longrightarrow> (x + fst d, y + snd d) \<in> D \<union> set (snd (visitNeighbor msk width height x y d (V, Q))))"
proof -
  define T where "T = trueCells msk width height"
  define n where "n = (x + fst d, y + snd d)"
  have CT: "C \<subseteq> T" using component_subset[OF C(2)] C(1) by (simp add: T_def)
  have adj: "adjacent8 (x, y) n"
    unfolding adjacent8_directions n_def using d by auto
  have nC: "n \<in> C" if "n \<in> T"
    using component_step[of "(x, y)" T s n] cur CT that adj C(1) by (auto simp: T_def)
  have nT: "n \<in> T \<longleftrightarrow> n \<in> gridCells width height \<and> maskAt msk (cellIndex width n)"
    by (auto simp: T_def trueCells_def n_def cellIndex_def)
  have nG: "n \<in> gridCells width height \<longleftrightarrow>
      x + fst d \<ge> 0 \<and> x + fst d < width \<and> y + snd d \<ge> 0 \<and> y + snd d < height"
    by (auto simp: gridCells_def n_def)
  have Vc: "\<And>c. c \<in> gridCells width height \<Longrightarrow>
      V (cellIndex width c) \<longleftrightarrow> V0 (cellIndex width c) \<or> c \<in> D \<or> c \<in> set Q"
    using inv by (simp add: bfsInv_def)
  show ?thesis
  proof (cases "n \<in> gridCells width height \<and> \<not> V (cellIndex width n) \<and> maskAt msk (cellIndex width n)")
    case True
    then have res: "visitNeighbor msk width height x y d (V, Q) = (V(cellIndex width n := True), Q @ [n])"
      using nG by (cases d) (simp add: visitNeighbor_def Let_def cellIndex_def n_def)
    have "n \<in> T" using True nT by simp
    then have "n \<in> C" by (rule nC)
    have notin: "n \<notin> D" "n \<notin> set Q" using True Vc[of n] by auto
    have "bfsInv width height V0 C D (V(cellIndex width n := True)) (Q @ [n])"
      unfolding bfsInv_def
    proof (intro conjI ballI)
      show "set (Q @ [n]) \<subseteq> C" using inv \<open>n \<in> C\<close> by (simp add: bfsInv_def)
      show "distinct (Q @ [n])" using inv notin by (simp add: bfsInv_def)
      show "set (Q @ [n]) \<inter> D = {}" using inv notin by (simp add: bfsInv_def)
    next
      fix c assume c: "c \<in> gridCells width height"
      show "(V(cellIndex width n := True)) (cellIndex width c)
          \<longleftrightarrow> V0 (cellIndex width c) \<or> c \<in> D \<or> c \<in> set (Q @ [n])"
        using cellIndex_fresh[OF c, of n V] True Vc[OF c] by auto
    qed
    then show ?thesis using \<open>n \<in> T\<close> by (auto simp add: res n_def[symmetric] T_def[symmetric])
  next
    case False
    then have res: "visitNeighbor msk width height x y d (V, Q) = (V, Q)"
      using nG by (cases d) (auto simp add: visitNeighbor_def Let_def cellIndex_def n_def)
    have "n \<in> D \<union> set Q" if "n \<in> T"
    proof -
      have g: "n \<in> gridCells width height" "maskAt msk (cellIndex width n)"
        using that nT by simp_all
      then have "V (cellIndex width n)" using False by simp
      moreover have "\<not> V0 (cellIndex width n)" using nC[OF that] fresh by simp
      ultimately show ?thesis using Vc[OF g(1)] by simp
    qed
    then show ?thesis using inv by (simp add: res n_def[symmetric] T_def[symmetric])
  qed
qed

lemma fold_visitNeighbor_inv:
  assumes C: "C = component (trueCells msk width height) s" "s \<in> trueCells msk width height"
    and cur: "(x, y) \<in> C"
    and fresh: "\<forall>c \<in> C. \<not> V0 (cellIndex width c)"
  shows "set ds \<subseteq> set directions \<Longrightarrow> bfsInv width height V0 C D V Q \<Longrightarrow>
     bfsInv width height V0 C D (fst (fold (visitNeighbor msk width height x y) ds (V, Q)))
           (snd (fold (visitNeighbor msk width height x y) ds (V, Q)))
       \<and> set Q \<subseteq> set (snd (fold (visitNeighbor msk width height x y) ds (V, Q)))
       \<and> (\<forall>d \<in> set ds. (x + fst d, y + snd d) \<in> trueCells msk width height
            \<longrightarrow> (x + fst d, y + snd d) \<in> D \<union> set (snd (fold (visitNeighbor msk width height x y) ds (V, Q))))"
proof (induction ds arbitrary: V Q)
  case Nil
  then show ?case by simp
next
  case (Cons d ds)
  obtain V1 Q1 where s1: "visitNeighbor msk width height x y d (V, Q) = (V1, Q1)"
    by (cases "visitNeighbor msk width height x y d (V, Q)")
  have d: "d \<in> set directions" using Cons.prems(1) by simp
  have one: "bfsInv width height V0 C D V1 Q1" "set Q \<subseteq> set Q1"
    "(x + fst d, y + snd d) \<in> trueCells msk width height \<longrightarrow> (x + fst d, y + snd d) \<in> D \<union> set Q1"
    using visitNeighbor_inv[OF Cons.prems(2) C cur fresh d] by (simp_all add: s1)
  have rest: "bfsInv width height V0 C D (fst (fold (visitNeighbor msk width height x y) ds (V1, Q1)))
           (snd (fold (visitNeighbor msk width height x y) ds (V1, Q1)))"
    "set Q1 \<subseteq> set (snd (fold (visitNeighbor msk width height x y) ds (V1, Q1)))"
    "\<forall>d \<in> set ds. (x + fst d, y + snd d) \<in> trueCells msk width height
            \<longrightarrow> (x + fst d, y + snd d) \<in> D \<union> set (snd (fold (visitNeighbor msk width height x y) ds (V1, Q1)))"
    using Cons.IH[OF _ one(1)] Cons.prems(1) by simp_all
  show ?case
    using one rest by (auto simp: s1)
qed

lemma bfsLoop_correct:
  "C = component (trueCells msk width height) s \<Longrightarrow> s \<in> trueCells msk width height
    \<Longrightarrow> \<forall>c \<in> C. \<not> V0 (cellIndex width c)
    \<Longrightarrow> bfsInv width height V0 C (set P) V Q \<Longrightarrow> distinct P \<Longrightarrow> set P \<subseteq> C
    \<Longrightarrow> (\<forall>p \<in> set P. \<forall>q \<in> trueCells msk width height. adjacent8 p q \<longrightarrow> q \<in> set P \<union> set Q)
    \<Longrightarrow> s \<in> set P \<union> set Q
    \<Longrightarrow> set (fst (bfsLoop msk width height V Q P)) = C
        \<and> distinct (fst (bfsLoop msk width height V Q P))
        \<and> (\<forall>c \<in> gridCells width height.
              snd (bfsLoop msk width height V Q P) (cellIndex width c)
                \<longleftrightarrow> V0 (cellIndex width c) \<or> c \<in> C)"
proof (induction msk width height V Q P rule: bfsLoop.induct)
  case (1 msk width height visited points)
  note C = "1.prems"(1,2) and fresh = "1.prems"(3) and I = "1.prems"(4-8)
  have "component (trueCells msk width height) s \<subseteq> set points"
  proof (rule component_least)
    show "s \<in> set points" using I(5) by simp
  next
    fix a b
    assume "a \<in> set points" "a \<in> trueCells msk width height" "b \<in> trueCells msk width height"
      "adjacent8 a b"
    then show "b \<in> set points" using I(4) by auto
  qed
  then have "set points = C" using I(3) C(1) by auto
  then show ?case using I(1,2) by (simp add: bfsInv_def)
next
  case (2 msk width height visited x y queue points)
  note C = "2.prems"(1,2) and fresh = "2.prems"(3) and I = "2.prems"(4-8)
  define st where "st = fold (visitNeighbor msk width height x y) directions (visited, queue)"
  define D where "D = insert (x, y) (set points)"
  have inv: "set queue \<subseteq> C" "(x, y) \<in> C" "distinct queue" "(x, y) \<notin> set queue"
    "set queue \<inter> set points = {}" "(x, y) \<notin> set points"
    "\<And>c. c \<in> gridCells width height \<Longrightarrow>
       visited (cellIndex width c) \<longleftrightarrow> V0 (cellIndex width c) \<or> c \<in> set points \<or> c = (x, y) \<or> c \<in> set queue"
    using I(1) by (auto simp: bfsInv_def)
  have inv0: "bfsInv width height V0 C D visited queue"
    unfolding bfsInv_def D_def using inv by auto
  have f: "bfsInv width height V0 C D (fst st) (snd st)" "set queue \<subseteq> set (snd st)"
    "\<forall>d \<in> set directions. (x + fst d, y + snd d) \<in> trueCells msk width height
        \<longrightarrow> (x + fst d, y + snd d) \<in> D \<union> set (snd st)"
    using fold_visitNeighbor_inv[OF C inv(2) fresh subset_refl inv0] by (simp_all add: st_def)
  have nb: "q \<in> D \<union> set (snd st)" if "q \<in> trueCells msk width height" "adjacent8 (x, y) q" for q
    using that f(3) unfolding adjacent8_directions by auto
  have P1: "bfsInv width height V0 C (set (points @ [(x, y)])) (fst st) (snd st)"
    using f(1) by (simp add: D_def)
  have P2: "distinct (points @ [(x, y)])" using I(2) inv(6) by simp
  have P3: "set (points @ [(x, y)]) \<subseteq> C" using I(3) inv(2) by simp
  have P4: "\<forall>p \<in> set (points @ [(x, y)]). \<forall>q \<in> trueCells msk width height.
      adjacent8 p q \<longrightarrow> q \<in> set (points @ [(x, y)]) \<union> set (snd st)"
  proof (intro ballI impI)
    fix p q
    assume p: "p \<in> set (points @ [(x, y)])" and q: "q \<in> trueCells msk width height" "adjacent8 p q"
    show "q \<in> set (points @ [(x, y)]) \<union> set (snd st)"
    proof (cases "p = (x, y)")
      case True
      then show ?thesis using nb[of q] q by (auto simp: D_def)
    next
      case False
      then have "p \<in> set points" using p by simp
      then have "q \<in> set points \<union> set ((x, y) # queue)" using I(4) q by blast
      then show ?thesis using f(2) by auto
    qed
  qed
  have P5: "s \<in> set (points @ [(x, y)]) \<union> set (snd st)"
    using I(5) f(2) by auto
  have "bfsLoop msk width height visited ((x, y) # queue) points
      = bfsLoop msk width height (fst st) (snd st) (points @ [(x, y)])"
    by (simp add: st_def Let_def)
  then show ?case
    using "2.IH"[OF st_def C fresh P1 P2 P3 P4 P5] by simp
qed

lemma bfs_correct:
  assumes s: "(x, y) \<in> trueCells msk width height"
    and fresh: "\<forall>c \<in> component (trueCells msk width height) (x, y). \<not> V0 (cellIndex width c)"
  shows "set (fst (bfs msk width height V0 x y)) = component (trueCells msk width height) (x, y)
       \<and> distinct (fst (bfs msk width height V0 x y))
       \<and> (\<forall>c \<in> gridCells width height.
              snd (bfs msk width height V0 x y) (cellIndex width c)
                \<longleftrightarrow> V0 (cellIndex width c) \<or> c \<in> component (trueCells msk width height) (x, y))"
proof -
  define C where "C = component (trueCells msk width height) (x, y)"
  have sG: "(x, y) \<in> gridCells width height" using s trueCells_subset by blast
  have sC: "(x, y) \<in> C" by (simp add: C_def component_self)
  have "bfsInv width height V0 C (set []) (V0(cellIndex width (x, y) := True)) [(x, y)]"
    unfolding bfsInv_def using sC cellIndex_fresh[OF _ sG, of _ V0] by auto
  from bfsLoop_correct[OF C_def s _ this] fresh sC
  show ?thesis
    by (simp add: bfs_def C_def[symmetric] cellIndex_def)
qed

lemma boundingRegion_list:
  assumes "set ps = C" "distinct ps"
  shows "\<lparr> reg_x = Min (set (map fst ps)), reg_y = Min (set (map snd ps)),
           reg_width = Max (set (map fst ps)) - Min (set (map fst ps)) + 1,
           reg_height = Max (set (map snd ps)) - Min (set (map snd ps)) + 1,
           pixelCount = Some (length ps), reg_text = None, confidence = None \<rparr>
         = boundingRegion C"
  using assms distinct_card[of ps] by (auto simp: boundingRegion_def)

lemma componentStep_inv:
  assumes inv: "labelInv msk width height S Cs st"
    and g: "(x, y) \<in> gridCells width height"
  shows "\<exists>Cs'. labelInv msk width height (insert (x, y) S) Cs' (componentStep msk width height x y st)"
proof -
  define T where "T = trueCells msk width height"
  obtain V R where st: "st = (V, R)" by (cases st)
  have I: "distinct Cs" "set Cs \<subseteq> components T"
    "\<And>c. c \<in> gridCells width height \<Longrightarrow> V (cellIndex width c) \<longleftrightarrow> c \<in> \<Union> (set Cs)"
    "\<And>c. c \<in> S \<Longrightarrow> c \<in> T \<Longrightarrow> c \<in> \<Union> (set Cs)"
    "R = map boundingRegion (filter (\<lambda>C. minRegionSize \<le> card C) Cs)"
    using inv by (auto simp: labelInv_def st T_def)
  have idx: "y * width + x = cellIndex width (x, y)" by (simp add: cellIndex_def)
  have inT: "(x, y) \<in> T \<longleftrightarrow> maskAt msk (cellIndex width (x, y))"
    using g by (simp add: T_def trueCells_def cellIndex_def)
  show ?thesis
  proof (cases "maskAt msk (cellIndex width (x, y)) \<and> \<not> V (cellIndex width (x, y))")
    case False
    then have "componentStep msk width height x y st = st"
      by (auto simp add: componentStep_def st idx Let_def)
    moreover have "(x, y) \<in> T \<longrightarrow> (x, y) \<in> \<Union> (set Cs)"
      using False inT I(3)[OF g] by auto
    ultimately have "labelInv msk width height (insert (x, y) S) Cs (componentStep msk width height x y st)"
      using inv by (auto simp: labelInv_def T_def)
    then show ?thesis ..
  next
    case True
    define C where "C = component T (x, y)"
    have xyT: "(x, y) \<in> T" using True inT by simp
    have CT: "C \<subseteq> T" using component_subset[OF xyT] by (simp add: C_def)
    have Ccomp: "C \<in> components T" using xyT by (auto simp: components_def C_def)
    have xyC: "(x, y) \<in> C" by (simp add: C_def component_self)
    have notin: "(x, y) \<notin> \<Union> (set Cs)" using True I(3)[OF g] by simp
    have disj: "c \<notin> \<Union> (set Cs)" if "c \<in> C" for c
    proof
      assume "c \<in> \<Union> (set Cs)"
      then obtain C' where C': "C' \<in> set Cs" "c \<in> C'" by auto
      then have "C' = C" using components_disjoint[of C' T C c] I(2) Ccomp that by auto
      then show False using C'(1) notin xyC by auto
    qed
    have fresh: "\<forall>c \<in> component (trueCells msk width height) (x, y). \<not> V (cellIndex width c)"
    proof
      fix c assume "c \<in> component (trueCells msk width height) (x, y)"
      then have c: "c \<in> C" by (simp add: C_def T_def)
      then have "c \<in> gridCells width height"
        using CT trueCells_subset[of msk width height] by (auto simp: T_def)
      then show "\<not> V (cellIndex width c)" using I(3) disj[OF c] by simp
    qed
    obtain ps V' where b: "bfs msk width height V x y = (ps, V')"
      by (cases "bfs msk width height V x y")
    have B: "set ps = C" "distinct ps"
      "\<And>c. c \<in> gridCells width height \<Longrightarrow> V' (cellIndex width c) \<longleftrightarrow> V (cellIndex width c) \<or> c \<in> C"
      using bfs_correct[OF xyT[unfolded T_def] fresh] by (simp_all add: b C_def T_def)
    have len: "length ps = card C" using B(1,2) distinct_card by fastforce
    define R' where "R' = (if minRegionSize \<le> card C then R @ [boundingRegion C] else R)"
    have res: "componentStep msk width height x y st = (V', R')"
      using True boundingRegion_list[OF B(1,2)]
      by (simp add: componentStep_def st idx b Let_def len R'_def)
    have "C \<notin> set Cs" using notin xyC by auto
    have "labelInv msk width height (insert (x, y) S) (Cs @ [C]) (V', R')"
      unfolding labelInv_def
    proof (intro conjI ballI impI)
      show "distinct (Cs @ [C])" using I(1) \<open>C \<notin> set Cs\<close> by simp
      show "set (Cs @ [C]) \<subseteq> components (trueCells msk width height)"
        using I(2) Ccomp by (simp add: T_def)
      show "snd (V', R') = map boundingRegion (filter (\<lambda>C. minRegionSize \<le> card C) (Cs @ [C]))"
        using I(5) by (simp add: R'_def)
    next
      fix c assume "c \<in> gridCells width height"
      then show "fst (V', R') (cellIndex width c) \<longleftrightarrow> c \<in> \<Union> (set (Cs @ [C]))"
        using B(3) I(3) by auto
    next
      fix c assume "c \<in> insert (x, y) S" "c \<in> trueCells msk width height"
      then show "c \<in> \<Union> (set (Cs @ [C]))"
        using xyC I(4)[of c] by (cases "c = (x, y)") (auto simp: T_def)
    qed
    then show ?thesis unfolding res ..
  qed
qed

lemma fold_componentStep_inv:
  "set cells \<subseteq> gridCells width height \<Longrightarrow> labelInv msk width height S Cs st \<Longrightarrow>
   \<exists>Cs'. labelInv msk width height (S \<union> set cells) Cs'
      (fold (\<lambda>(x, y). componentStep msk width height x y) cells st)"
proof (induction cells arbitrary: S Cs st)
  case Nil
  then show ?case by auto
next
  case (Cons c cells)
  obtain x y where c: "c = (x, y)" by (cases c)
  obtain Cs1 where 1: "labelInv msk width height (insert (x, y) S) Cs1 (componentStep msk width height x y st)"
    using componentStep_inv[OF Cons.prems(2), of x y] Cons.prems(1) c by auto
  have "set cells \<subseteq> gridCells width height" using Cons.prems(1) by simp
  moreover have "insert (x, y) S \<union> set cells = S \<union> set (c # cells)"
    by (auto simp: c)
  ultimately show ?case
    using Cons.IH[of "insert (x, y) S" Cs1 "componentStep msk width height x y st"] 1
    by (simp add: c)
qed

lemma set_scanCells: "set (scanCells width height) = gridCells width height"
proof -
  have "set (scanCells width height) = (\<Union>y \<in> {0..height - 1}. (\<lambda>x. (x, y)) ` {0..width - 1})"
    by (simp add: scanCells_def)
  also have "\<dots> = gridCells width height"
    by (auto simp: gridCells_def)
  finally show ?thesis .
qed

lemma findConnectedComponents_scanCells:
  "findConnectedComponents msk width height =
     snd (fold (\<lambda>(x, y). componentStep msk (int width) (int height) x y)
            (scanCells (int width) (int height)) (\<lambda>i. False, []))"
  by (simp add: findConnectedComponents_def scanCells_def fold_concat fold_map comp_def)

lemma findConnectedComponents_components:
  "\<exists>Cs. distinct Cs \<and> set Cs = components (trueCells msk (int width) (int height)) \<and>
        findConnectedComponents msk width height
          = map boundingRegion (filter (\<lambda>C. 50 \<le> card C) Cs)"
proof -
  define T where "T = trueCells msk (int width) (int height)"
  have "labelInv msk (int width) (int height) {} [] (\<lambda>i. False, [])"
    by (simp add: labelInv_def)
  from fold_componentStep_inv[OF _ this, of "scanCells (int width) (int height)"]
  obtain Cs where L: "labelInv msk (int width) (int height) (gridCells (int width) (int height)) Cs
      (fold (\<lambda>(x, y). componentStep msk (int width) (int height) x y)
         (scanCells (int width) (int height)) (\<lambda>i. False, []))"
    by (auto simp: set_scanCells)
  have sub: "set Cs \<subseteq> components T" and cover: "\<And>c. c \<in> T \<Longrightarrow> c \<in> \<Union> (set Cs)"
    using L trueCells_subset[of msk "int width" "int height"] by (auto simp: labelInv_def T_def)
  have "components T \<subseteq> set Cs"
  proof
    fix C assume C: "C \<in> components T"
    then obtain p where p: "p \<in> T" "C = component T p" by (auto simp: components_def)
    then obtain C' where C': "C' \<in> set Cs" "p \<in> C'" using cover[of p] by blast
    then have "C' = C" using components_disjoint[of C' T C p] sub C p component_self[of p T] by auto
    then show "C \<in> set Cs" using C'(1) by simp
  qed
  then have "set Cs = components T" using sub by auto
  then show ?thesis
    using L by (auto simp: labelInv_def findConnectedComponents_scanCells T_def minRegionSize_def)
qed

lemma component_adjacent:
  assumes "p \<in> T" "q \<in> T" "adjacent8 p q"
  shows "component T p = component T q"
  using component_eq[of q T p] component_step[OF component_self[of p T] assms] by simp

lemma component_isolated:
  assumes "p \<in> T" and "\<forall>q \<in> T. \<not> adjacent8 p q"
  shows "component T p = {p}"
proof -
  have "component T p \<subseteq> {p}"
    by (rule component_least) (use assms in auto)
  then show ?thesis using component_self[of p T] by auto
qed

text \<open>
  Claim C5.  For every mask and all dimensions, the cells that are true in the mask
  fall into components under 8-connectivity (two true cells whose coordinates differ by
  at most 1 each, diagonal neighbours included, are in the same component; a true cell
  with no such true neighbour is a component of its own), and
  \<^verbatim>\<open>findConnectedComponents\<close> returns, for the components listed once each in some order,
  exactly one region for each component of at least 50 cells and none for a smaller
  one: the region has \<open>x\<close> and \<open>y\<close> the least coordinates of the component, \<open>width\<close> and
  \<open>height\<close> the greatest minus the least plus 1, and \<open>pixelCount\<close> its number of cells.
\<close>

theorem findConnectedComponents_correct:
  "(\<exists>Cs. distinct Cs \<and> set Cs = components (trueCells msk (int width) (int height)) \<and>
        findConnectedComponents msk width height
          = map boundingRegion (filter (\<lambda>C. 50 \<le> card C) Cs))
   \<and> (\<forall>p \<in> trueCells msk (int width) (int height). \<forall>q \<in> trueCells msk (int width) (int height).
         p \<noteq> q \<and> \<bar>fst q - fst p\<bar> \<le> 1 \<and> \<bar>snd q - snd p\<bar> \<le> 1 \<longrightarrow>
         component (trueCells msk (int width) (int height)) p
           = component (trueCells msk (int width) (int height)) q)
   \<and> (\<forall>p \<in> trueCells msk (int width) (int height).
         (\<forall>q \<in> trueCells msk (int width) (int height).
            q \<noteq> p \<longrightarrow> 1 < \<bar>fst q - fst p\<bar> \<or> 1 < \<bar>snd q - snd p\<bar>) \<longrightarrow>
         component (trueCells msk (int width) (int height)) p = {p})"
proof (intro conjI ballI impI)
  show "\<exists>Cs. distinct Cs \<and> set Cs = components (trueCells msk (int width) (int height)) \<and>
        findConnectedComponents msk width height
          = map boundingRegion (filter (\<lambda>C. 50 \<le> card C) Cs)"
    by (rule findConnectedComponents_components)
next
  fix p q
  assume "p \<in> trueCells msk (int width) (int height)" "q \<in> trueCells msk (int width) (int height)"
    "p \<noteq> q \<and> \<bar>fst q - fst p\<bar> \<le> 1 \<and> \<bar>snd q - snd p\<bar> \<le> 1"
  then show "component (trueCells msk (int width) (int height)) p
           = component (trueCells msk (int width) (int height)) q"
    by (intro component_adjacent) (simp_all add: adjacent8_def)
next
  fix p
  assume p: "p \<in> trueCells msk (int width) (int height)"
    and iso: "\<forall>q \<in> trueCells msk (int width) (int height).
            q \<noteq> p \<longrightarrow> 1 < \<bar>fst q - fst p\<bar> \<or> 1 < \<bar>snd q - snd p\<bar>"
  have "\<forall>q \<in> trueCells msk (int width) (int height). \<not> adjacent8 p q"
    using iso by (fastforce simp: adjacent8_def)
  then show "component (trueCells msk (int width) (int height)) p = {p}"
    by (rule component_isolated[OF p])
qed

lemmas labelling_simps = findConnectedComponents_def componentStep_def bfs_def visitNeighbor_def
  directions_def maskAt_def Let_def minRegionSize_def upto_rec1 numeral_eq_Suc

lemma findConnectedComponents_example:
  "findConnectedComponents
     [True, True, True, True, True, True, True, True, True, True, False, True,
      True, True, True, True, True, True, True, True, True, True, False, False,
      True, True, True, True, True, True, True, True, True, True, False, False,
      True, True, True, True, True, True, True, True, True, True, False, False,
      True, True, True, True, True, True, True, True, True, True, False, False] 12 5
   = [\<lparr>reg_x = 0, reg_y = 0, reg_width = 10, reg_height = 5, pixelCount = Some 50,
        reg_text = None, confidence = None\<rparr>]"
  by (simp add: labelling_simps)

theorem findConnectedComponents_correct_witness:
  "findConnectedComponents
     [True, True, True, True, True, True, True, True, True, True, False, True,
      True, True, True, True, True, True, True, True, True, True, False, False,
      True, True, True, True, True, True, True, True, True, True, False, False,
      True, True, True, True, True, True, True, True, True, True, False, False,
      True, True, True, True, True, True, True, True, True, True, False, False] 12 5
   = [\<lparr>reg_x = 0, reg_y = 0, reg_width = 10, reg_height = 5, pixelCount = Some 50,
        reg_text = None, confidence = None\<rparr>]
   \<and> (\<exists>Cs. distinct Cs \<and> set Cs = components (trueCells
     [True, True, True, True, True, True, True, True, True, True, False, True,
      True, True, True, True, True, True, True, True, True, True, False, False,
      True, True, True, True, True, True, True, True, True, True, False, False,
      True, True, True, True, True, True, True, True, True, True, False, False,
      True, True, True, True, True, True, True, True, True, True, False, False] 12 5) \<and>
      [\<lparr>reg_x = 0, reg_y = 0, reg_width = 10, reg_height = 5, pixelCount = Some 50,
        reg_text = None, confidence = None\<rparr>]
        = map boundingRegion (filter (\<lambda>C. 50 \<le> card C) Cs))"
  using findConnectedComponents_correct[of
     "[True, True, True, True, True, True, True, True, True, True, False, True,
      True, True, True, True, True, True, True, True, True, True, False, False,
      True, True, True, True, True, True, True, True, True, True, False, False,
      True, True, True, True, True, True, True, True, True, True, False, False,
      True, True, True, True, True, True, True, True, True, True, False, False]" 12 5]
  unfolding findConnectedComponents_example by simp

end
